theory Spec2Isabelle
  imports Complex_Main
begin

section \<open>Sample pipeline\<close>

text \<open>
  Both front ends (\<^verbatim>\<open>cli_reader.py\<close> and \<^verbatim>\<open>qt_gui_reader.py\<close>) turn a raw device read into
  four optional channel values. A reading is a value of an arbitrary type \<open>'v\<close> (a Python
  float); the device returns \<^verbatim>\<open>None\<close> or a list whose entries may themselves be \<^verbatim>\<open>None\<close>.
\<close>

record 'v Sample =
  ts :: string
  ch1 :: "'v option"
  ch2 :: "'v option"
  ch3 :: "'v option"
  ch4 :: "'v option"

text \<open>Python truthiness of \<^verbatim>\<open>temps\<close>: \<^verbatim>\<open>None\<close> and the empty list are falsy.\<close>

definition truthy :: "'a list option \<Rightarrow> bool" where
  "truthy temps = (case temps of None \<Rightarrow> False | Some xs \<Rightarrow> xs \<noteq> [])"

text \<open>
  \<^verbatim>\<open>if temps and len(temps) >= 4: ch1, ch2, ch3, ch4 = temps[:4]\<close>
  \<^verbatim>\<open>else: ch1 = ch2 = ch3 = ch4 = None\<close>
\<close>

definition unknown_sample :: "string \<Rightarrow> 'v Sample" where
  "unknown_sample t = \<lparr>ts = t, ch1 = None, ch2 = None, ch3 = None, ch4 = None\<rparr>"

definition process :: "string \<Rightarrow> 'v option list option \<Rightarrow> 'v Sample" where
  "process t temps =
     (case temps of
        None \<Rightarrow> unknown_sample t
      | Some xs \<Rightarrow>
          (if truthy temps \<and> length xs \<ge> 4
           then (let p = take 4 xs in \<lparr>ts = t, ch1 = p ! 0, ch2 = p ! 1, ch3 = p ! 2, ch4 = p ! 3\<rparr>)
           else unknown_sample t))"

section \<open>CSV rows\<close>

text \<open>
  A cell handed to \<^verbatim>\<open>csv.writer.writerow\<close> is a string, \<^verbatim>\<open>None\<close>, or a value rendered with
  \<^verbatim>\<open>str\<close>. The rendering of a reading is the parameter \<open>shw\<close>. The writer uses the default
  dialect: comma delimiter, minimal quoting with doubled quote characters, line terminator
  CR LF; the files are opened with \<^verbatim>\<open>newline=""\<close>, so the terminator is written unchanged.
\<close>

datatype 'v cell = Text string | PyNone | Value 'v

definition cell_of :: "'v option \<Rightarrow> 'v cell" where
  "cell_of r = (case r of None \<Rightarrow> PyNone | Some v \<Rightarrow> Value v)"

definition csv_field :: "('v \<Rightarrow> string) \<Rightarrow> 'v cell \<Rightarrow> string" where
  "csv_field shw c = (case c of Text s \<Rightarrow> s | PyNone \<Rightarrow> [] | Value v \<Rightarrow> shw v)"

definition dquote :: char where
  "dquote = CHR 0x22"

definition crlf :: string where
  "crlf = [CHR 0x0D, CHR 0x0A]"

definition needs_quote :: "string \<Rightarrow> bool" where
  "needs_quote s = list_ex (\<lambda>c. c = CHR '','' \<or> c = dquote \<or> c \<in> set crlf) s"

definition csv_quote :: "string \<Rightarrow> string" where
  "csv_quote s =
     (if needs_quote s
      then [dquote] @ concat (map (\<lambda>c. if c = dquote then [dquote, dquote] else [c]) s) @ [dquote]
      else s)"

fun join_fields :: "string list \<Rightarrow> string" where
  "join_fields [] = []"
| "join_fields [f] = f"
| "join_fields (f # g # fs) = f @ '','' @ join_fields (g # fs)"

definition csv_fields :: "('v \<Rightarrow> string) \<Rightarrow> 'v cell list \<Rightarrow> string list" where
  "csv_fields shw cells = map (csv_field shw) cells"

text \<open>The text that one \<^verbatim>\<open>writerow\<close> call appends to the file (rows here have five cells).\<close>

definition writerow :: "('v \<Rightarrow> string) \<Rightarrow> 'v cell list \<Rightarrow> string" where
  "writerow shw cells = join_fields (map csv_quote (csv_fields shw cells)) @ crlf"

definition header_cells :: "'v cell list" where
  "header_cells = [Text ''timestamp_local'', Text ''ch1_c'', Text ''ch2_c'', Text ''ch3_c'', Text ''ch4_c'']"

text \<open>\<^verbatim>\<open>[ts, ch1, ch2, ch3, ch4]\<close> in the CLI, \<^verbatim>\<open>[s.ts, s.ch1, s.ch2, s.ch3, s.ch4]\<close> in the GUI.\<close>

definition sample_cells :: "'v Sample \<Rightarrow> 'v cell list" where
  "sample_cells s = [Text (ts s), cell_of (ch1 s), cell_of (ch2 s), cell_of (ch3 s), cell_of (ch4 s)]"

definition header_line :: string where
  "header_line = writerow (\<lambda>v::unit. []) header_cells"

definition sample_line :: "('v \<Rightarrow> string) \<Rightarrow> 'v Sample \<Rightarrow> string" where
  "sample_line shw s = writerow shw (sample_cells s)"

section \<open>Opening the CSV file\<close>

text \<open>
  The file system maps a path to the content of the file there. Opening with mode \<^verbatim>\<open>"w"\<close>
  creates or truncates; opening with mode \<^verbatim>\<open>"a"\<close> creates an empty file or keeps the content.
\<close>

type_synonym fs = "string \<rightharpoonup> string"

datatype open_mode = ModeA | ModeW

definition content :: "fs \<Rightarrow> string \<Rightarrow> string" where
  "content files path = (case files path of None \<Rightarrow> [] | Some c \<Rightarrow> c)"

definition py_open :: "fs \<Rightarrow> string \<Rightarrow> open_mode \<Rightarrow> fs" where
  "py_open files path m =
     (case m of
        ModeW \<Rightarrow> files(path \<mapsto> [])
      | ModeA \<Rightarrow> files(path \<mapsto> content files path))"

definition fwrite :: "fs \<Rightarrow> string \<Rightarrow> string \<Rightarrow> fs" where
  "fwrite files path txt = files(path \<mapsto> content files path @ txt)"

definition path_exists :: "fs \<Rightarrow> string \<Rightarrow> bool" where
  "path_exists files path = (files path \<noteq> None)"

text \<open>
  CLI, \<^verbatim>\<open>main\<close>:
  \<^verbatim>\<open>open_mode = "a" if (args.append or file_exists) else "w"\<close>
  \<^verbatim>\<open>write_header = not (args.append or file_exists)\<close>
\<close>

definition cli_open_decision :: "bool \<Rightarrow> bool \<Rightarrow> open_mode \<times> bool" where
  "cli_open_decision appendMode file_exists =
     (if appendMode \<or> file_exists then ModeA else ModeW, \<not> (appendMode \<or> file_exists))"

text \<open>
  GUI, \<^verbatim>\<open>MainWindow._open_csv\<close>:
  \<^verbatim>\<open>mode = "a" if (append and exists) else "w"\<close>, header written
  \<^verbatim>\<open>if not (append and exists)\<close>.
\<close>

definition gui_open_decision :: "bool \<Rightarrow> bool \<Rightarrow> open_mode \<times> bool" where
  "gui_open_decision appendMode file_exists =
     (if appendMode \<and> file_exists then ModeA else ModeW, \<not> (appendMode \<and> file_exists))"

text \<open>Opening the sink: open the file in the decided mode, then write the header if decided.\<close>

definition open_sink :: "open_mode \<times> bool \<Rightarrow> fs \<Rightarrow> string \<Rightarrow> fs" where
  "open_sink dec files path =
     (let files1 = py_open files path (fst dec)
      in if snd dec then fwrite files1 path header_line else files1)"

definition cli_open_sink :: "fs \<Rightarrow> string \<Rightarrow> bool \<Rightarrow> fs" where
  "cli_open_sink files path appendMode =
     open_sink (cli_open_decision appendMode (path_exists files path)) files path"

definition gui_open_csv :: "fs \<Rightarrow> string \<Rightarrow> bool \<Rightarrow> fs" where
  "gui_open_csv files path appendMode =
     open_sink (gui_open_decision appendMode (path_exists files path)) files path"

section \<open>Environment, events and run state\<close>

text \<open>
  Exceptions are values. \<open>KeyboardInterrupt\<close> is Ctrl+C; \<open>Error m\<close> stands for any exception
  derived from \<^verbatim>\<open>Exception\<close>, with its message.
\<close>

datatype exn = KeyboardInterrupt | Error string

datatype 'v read_result = Temps "'v option list option" | Raises exn

text \<open>
  What the outside world contributes to one loop iteration: how much longer than requested
  \<^verbatim>\<open>time.sleep\<close> takes, what \<^verbatim>\<open>read_temperatures\<close> does and how long it takes, and the wall-clock
  string that \<^verbatim>\<open>iso_now_local\<close> returns afterwards. The reader's \<^verbatim>\<open>open\<close> reports failure through
  its \<^verbatim>\<open>serial\<close> attribute, as both front ends expect, and \<^verbatim>\<open>close\<close> returns.
\<close>

record 'v tick =
  oversleep :: real
  reading :: "'v read_result"
  latency :: real
  stamp :: string

datatype msg =
    ErrInterval | ErrPort | InfoReading | InfoWillCollect | InfoForever
  | InfoSample | InfoInterrupted | InfoDone nat

datatype status = StatusRunning | StatusStopped

datatype 'v signal =
    SigSample "'v Sample" | SigStatus status | SigError string | SigFinished

text \<open>
  The trace of a run lists its effects in program order. \<open>Wait d n z\<close> records lines
  \<^verbatim>\<open>now = time.monotonic(); sleep_s = next_t - now; if sleep_s > 0: time.sleep(sleep_s)\<close>:
  the deadline \<open>d\<close> compared against, the clock reading \<open>n\<close>, and the duration \<open>z\<close> passed to
  \<^verbatim>\<open>time.sleep\<close> (\<open>0\<close> when it is not called). \<open>Advance d\<close> is \<^verbatim>\<open>next_t += interval\<close> with the
  new deadline \<open>d\<close>. Times are real numbers.
\<close>

datatype 'v event =
    Stderr msg | Stdout msg
  | EnsureParentDir string
  | OpenPort | ClosePort
  | OpenFile string open_mode | WriteRow string | Flush | CloseFile
  | Wait real real real | Advance real | ReadDevice
  | StopRequested
  | Emit "'v signal"

record 'v run_state =
  clock :: real
  next_t :: real
  files :: fs
  samples_written :: nat
  stop_flag :: bool
  trace :: "'v event list"

definition logev :: "'v event list \<Rightarrow> 'v run_state \<Rightarrow> 'v run_state" where
  "logev es s = s\<lparr>trace := trace s @ es\<rparr>"

section \<open>Sampling scheduler\<close>

text \<open>
  The same four lines open the loop body of \<^verbatim>\<open>main\<close> (CLI) and of \<^verbatim>\<open>ReaderWorker.run\<close> (GUI):
  wait until the deadline unless it has passed, then advance the deadline.
\<close>

definition wait_deadline :: "real \<Rightarrow> 'v run_state \<Rightarrow> 'v run_state" where
  "wait_deadline over s =
     (let now_m = clock s;
          sleep_s = next_t s - now_m
      in if sleep_s > 0
         then logev [Wait (next_t s) now_m sleep_s] (s\<lparr>clock := now_m + sleep_s + over\<rparr>)
         else logev [Wait (next_t s) now_m 0] s)"

definition advance_deadline :: "real \<Rightarrow> 'v run_state \<Rightarrow> 'v run_state" where
  "advance_deadline iv s = logev [Advance (next_t s + iv)] (s\<lparr>next_t := next_t s + iv\<rparr>)"

definition read_device :: "real \<Rightarrow> 'v run_state \<Rightarrow> 'v run_state" where
  "read_device lat s = logev [ReadDevice] (s\<lparr>clock := clock s + lat\<rparr>)"

section \<open>Command-line front end\<close>

text \<open>
  \<open>out_path\<close> is the already resolved \<^verbatim>\<open>args.out.strip() or default_out_path()\<close>; the port and
  the baud rate only reach the device and are left out.
\<close>

record cli_args =
  interval :: real
  count :: int
  out_path :: string
  appendMode :: bool

record 'v cli_tick = "'v tick" +
  sleep_interrupted :: bool

text \<open>
  One iteration of \<^verbatim>\<open>while True\<close> up to and including \<^verbatim>\<open>samples_written += 1\<close> and the print.
  Ctrl+C arrives either inside \<^verbatim>\<open>time.sleep\<close> (only when the loop sleeps) or inside the device
  read; the result carries the exception, if any, and the state reached.
\<close>

definition cli_tick_body ::
  "('v \<Rightarrow> string) \<Rightarrow> cli_args \<Rightarrow> ('v, 'a) cli_tick_scheme \<Rightarrow> 'v run_state \<Rightarrow> exn option \<times> 'v run_state"
where
  "cli_tick_body shw a t s =
     (let s1 = wait_deadline (oversleep t) s
      in if next_t s - clock s > 0 \<and> sleep_interrupted t then (Some KeyboardInterrupt, s1)
         else
           let s2 = advance_deadline (interval a) s1;
               s3 = read_device (latency t) s2
           in case reading t of
                Raises e \<Rightarrow> (Some e, s3)
              | Temps temps \<Rightarrow>
                  let smp = process (stamp t) temps;
                      row = sample_line shw smp;
                      s4 = logev [WriteRow row, Flush] (s3\<lparr>files := fwrite (files s3) (out_path a) row\<rparr>);
                      s5 = logev [Stdout InfoSample] (s4\<lparr>samples_written := samples_written s4 + 1\<rparr>)
                  in (None, s5))"

datatype loop_exit = Done | Raised exn | Pending

text \<open>
  The loop consumes the environment of one iteration after the other. \<open>Pending\<close> means that
  the given environment is used up while the loop is still running.
\<close>

fun cli_loop ::
  "('v \<Rightarrow> string) \<Rightarrow> cli_args \<Rightarrow> ('v, 'a) cli_tick_scheme list \<Rightarrow> 'v run_state \<Rightarrow> loop_exit \<times> 'v run_state"
where
  "cli_loop shw a [] s = (Pending, s)"
| "cli_loop shw a (t # rest) s =
     (case cli_tick_body shw a t s of
        (Some e, s') \<Rightarrow> (Raised e, s')
      | (None, s') \<Rightarrow>
          if count a > 0 \<and> int (samples_written s') \<ge> count a then (Done, s')
          else cli_loop shw a rest s')"

record 'v cli_env =
  files0 :: fs
  port_opens :: bool
  file_open_error :: "string option"
  t0 :: real
  ticks :: "'v cli_tick list"

datatype result = Return int | Propagate exn | Running

definition init_state :: "fs \<Rightarrow> 'v run_state" where
  "init_state fs0 =
     \<lparr>clock = 0, next_t = 0, files = fs0, samples_written = 0, stop_flag = False, trace = []\<rparr>"

text \<open>
  \<^verbatim>\<open>main\<close>. With \<open>file_open_error env = Some m\<close>, \<^verbatim>\<open>open(out_path, ...)\<close> raises \<^verbatim>\<open>OSError\<close> with message
  \<open>m\<close>. The \<^verbatim>\<open>with\<close> block closes the file on every way out of it; \<^verbatim>\<open>finally\<close> closes the reader.
\<close>

definition cli_finally :: "'v run_state \<Rightarrow> 'v run_state" where
  "cli_finally s = logev [ClosePort, Stdout (InfoDone (samples_written s))] s"

text \<open>
  Entering the \<^verbatim>\<open>with open(...)\<close> block: the file is opened in the decided mode, the header
  row is written if decided, and \<^verbatim>\<open>next_t = time.monotonic()\<close> reads the clock.
\<close>

definition cli_open_file :: "cli_args \<Rightarrow> 'v cli_env \<Rightarrow> open_mode \<times> bool \<Rightarrow> 'v run_state \<Rightarrow> 'v run_state" where
  "cli_open_file a env dec s =
     (let s1 = logev [OpenFile (out_path a) (fst dec)] (s\<lparr>files := py_open (files s) (out_path a) (fst dec)\<rparr>);
          s2 = (if snd dec
                then logev [WriteRow header_line] (s1\<lparr>files := fwrite (files s1) (out_path a) header_line\<rparr>)
                else s1)
      in s2\<lparr>clock := t0 env, next_t := t0 env\<rparr>)"

text \<open>The \<^verbatim>\<open>with\<close> block around the loop, followed by the handlers of the \<^verbatim>\<open>try\<close> statement.\<close>

definition cli_with_file ::
  "('v \<Rightarrow> string) \<Rightarrow> cli_args \<Rightarrow> 'v cli_env \<Rightarrow> open_mode \<times> bool \<Rightarrow> 'v run_state \<Rightarrow> result \<times> 'v run_state"
where
  "cli_with_file shw a env dec s =
     (case cli_loop shw a (ticks env) (cli_open_file a env dec s) of
        (Pending, s') \<Rightarrow> (Running, s')
      | (Done, s') \<Rightarrow> (Return 0, cli_finally (logev [CloseFile] s'))
      | (Raised KeyboardInterrupt, s') \<Rightarrow>
          (Return 0, cli_finally (logev [CloseFile, Stdout InfoInterrupted] s'))
      | (Raised (Error m), s') \<Rightarrow> (Propagate (Error m), cli_finally (logev [CloseFile] s')))"

definition cli_main :: "('v \<Rightarrow> string) \<Rightarrow> cli_args \<Rightarrow> 'v cli_env \<Rightarrow> result \<times> 'v run_state" where
  "cli_main shw a env =
     (let s = init_state (files0 env)
      in if interval a \<le> 0 then (Return 2, logev [Stderr ErrInterval] s)
         else
           let s1 = logev [EnsureParentDir (out_path a)] s;
               file_exists = path_exists (files s1) (out_path a);
               dec = cli_open_decision (appendMode a) file_exists;
               s2 = logev [OpenPort] s1
           in if \<not> port_opens env then (Return 1, logev [Stderr ErrPort] s2)
              else
                let s3 = logev [Stdout InfoReading,
                                Stdout (if count a > 0 then InfoWillCollect else InfoForever)] s2
                in case file_open_error env of
                     Some m \<Rightarrow> (Propagate (Error m), cli_finally s3)
                   | None \<Rightarrow> cli_with_file shw a env dec s3)"

section \<open>Graphical front end: the worker\<close>

text \<open>
  \<^verbatim>\<open>ReaderWorker.stop\<close> sets \<^verbatim>\<open>self._stop\<close> from the control thread. The environment of an
  iteration says whether, and where, such a request arrives: before the loop condition is
  evaluated, while the body sleeps, or while it reads the device.
\<close>

datatype stop_point = AtBoundary | DuringSleep | DuringRead

record 'v gui_tick = "'v tick" +
  stop_request :: "stop_point option"

definition request_stop :: "'v run_state \<Rightarrow> 'v run_state" where
  "request_stop s = logev [StopRequested] (s\<lparr>stop_flag := True\<rparr>)"

definition arrive :: "stop_point \<Rightarrow> ('v, 'a) gui_tick_scheme \<Rightarrow> 'v run_state \<Rightarrow> 'v run_state" where
  "arrive p t s = (if stop_request t = Some p then request_stop s else s)"

text \<open>The body of \<^verbatim>\<open>while not self._stop\<close>.\<close>

definition worker_tick_body ::
  "real \<Rightarrow> ('v, 'a) gui_tick_scheme \<Rightarrow> 'v run_state \<Rightarrow> exn option \<times> 'v run_state"
where
  "worker_tick_body iv t s =
     (let s1 = arrive DuringSleep t (wait_deadline (oversleep t) s);
          s2 = advance_deadline iv s1;
          s3 = arrive DuringRead t (read_device (latency t) s2)
      in case reading t of
           Raises e \<Rightarrow> (Some e, s3)
         | Temps temps \<Rightarrow> (None, logev [Emit (SigSample (process (stamp t) temps))] s3))"

fun worker_loop ::
  "real \<Rightarrow> ('v, 'a) gui_tick_scheme list \<Rightarrow> 'v run_state \<Rightarrow> loop_exit \<times> 'v run_state"
where
  "worker_loop iv [] s = (Pending, s)"
| "worker_loop iv (t # rest) s =
     (let s0 = arrive AtBoundary t s
      in if stop_flag s0 then (Done, s0)
         else case worker_tick_body iv t s0 of
                (Some e, s') \<Rightarrow> (Raised e, s')
              | (None, s') \<Rightarrow> worker_loop iv rest s')"

record 'v gui_env =
  gport_opens :: bool
  gt0 :: real
  gticks :: "'v gui_tick list"

definition worker_finally :: "'v run_state \<Rightarrow> 'v run_state" where
  "worker_finally s = logev [ClosePort, Emit (SigStatus StatusStopped), Emit SigFinished] s"

text \<open>
  \<^verbatim>\<open>ReaderWorker.run\<close>: the whole body is inside \<^verbatim>\<open>try\<close>; \<^verbatim>\<open>except Exception\<close> emits the error
  signal, and \<^verbatim>\<open>finally\<close> closes the reader and emits the status and the finished signal, also
  after the early \<^verbatim>\<open>return\<close>.
\<close>

definition worker_run :: "real \<Rightarrow> 'v gui_env \<Rightarrow> result \<times> 'v run_state" where
  "worker_run iv env =
     (let s = logev [OpenPort] (init_state Map.empty)
      in if \<not> gport_opens env
         then (Return 0, worker_finally (logev [Emit (SigError ''Failed to open port''), Emit SigFinished] s))
         else
           let s1 = logev [Emit (SigStatus StatusRunning)] s;
               s2 = s1\<lparr>clock := gt0 env, next_t := gt0 env\<rparr>
           in case worker_loop iv (gticks env) s2 of
                (Pending, s') \<Rightarrow> (Running, s')
              | (Done, s') \<Rightarrow> (Return 0, worker_finally s')
              | (Raised KeyboardInterrupt, s') \<Rightarrow> (Propagate KeyboardInterrupt, worker_finally s')
              | (Raised (Error m), s') \<Rightarrow> (Return 0, worker_finally (logev [Emit (SigError m)] s')))"

fun signals :: "'v event list \<Rightarrow> 'v signal list" where
  "signals [] = []"
| "signals (Emit sg # es) = sg # signals es"
| "signals (e # es) = signals es"

section \<open>Graphical front end: the main window\<close>

text \<open>
  The plot buffers hold readings themselves, and \<^verbatim>\<open>float("nan")\<close> for an unknown reading: one
  list of floats per channel. The window is kept generic in the type of readings; the value
  that \<^verbatim>\<open>float("nan")\<close> denotes in that type is the field \<open>nan_marker\<close>. For Python floats it
  is \<open>NaN\<close> of the type \<open>pyfloat\<close> (a number or nan; the infinities play no role here).
\<close>

datatype pyfloat = Num real | NaN

datatype ui_event = ShowError string | CsvClosed

record 'v window =
  wfiles :: fs
  csv_file :: "string option"
  max_points :: nat
  buf_x :: "nat list"
  buf_y :: "'v list list"
  idx :: nat
  ui_log :: "ui_event list"
  nan_marker :: 'v

definition init_window :: "'v \<Rightarrow> fs \<Rightarrow> 'v window" where
  "init_window nan fs0 =
     \<lparr>wfiles = fs0, csv_file = None, max_points = 3000, buf_x = [], buf_y = [[], [], [], []],
      idx = 0, ui_log = [], nan_marker = nan\<rparr>"

text \<open>\<^verbatim>\<open>for i in range(4): body\<close> over the list of channel buffers, updated in place.\<close>

definition for_channels :: "(nat \<Rightarrow> 'a list \<Rightarrow> 'a list) \<Rightarrow> 'a list list \<Rightarrow> 'a list list" where
  "for_channels f ys = fold (\<lambda>i acc. acc[i := f i (acc ! i)]) [0, 1, 2, 3] ys"

text \<open>
  \<^verbatim>\<open>MainWindow.start\<close> after its checks: open the CSV file, then reset the plot buffers.
\<close>

definition window_start :: "string \<Rightarrow> bool \<Rightarrow> 'v window \<Rightarrow> 'v window" where
  "window_start path app w =
     w\<lparr>wfiles := gui_open_csv (wfiles w) path app,
       csv_file := Some path,
       idx := 0,
       buf_x := [],
       buf_y := for_channels (\<lambda>i b. []) (buf_y w)\<rparr>"

text \<open>\<^verbatim>\<open>vals[i] if vals[i] is not None else float("nan")\<close>\<close>

definition plot_value :: "'v \<Rightarrow> 'v option \<Rightarrow> 'v" where
  "plot_value nan r = (case r of None \<Rightarrow> nan | Some v \<Rightarrow> v)"

text \<open>\<^verbatim>\<open>MainWindow.on_sample\<close>: the CSV row, then the plot buffers and their trimming.\<close>

definition write_csv :: "('v \<Rightarrow> string) \<Rightarrow> 'v Sample \<Rightarrow> 'v window \<Rightarrow> 'v window" where
  "write_csv shw smp w =
     (case csv_file w of
        None \<Rightarrow> w
      | Some path \<Rightarrow> w\<lparr>wfiles := fwrite (wfiles w) path (sample_line shw smp)\<rparr>)"

definition append_buffers :: "'v Sample \<Rightarrow> 'v window \<Rightarrow> 'v window" where
  "append_buffers smp w =
     (let vals = [ch1 smp, ch2 smp, ch3 smp, ch4 smp]
      in w\<lparr>buf_x := buf_x w @ [idx w],
           idx := idx w + 1,
           buf_y := for_channels (\<lambda>i b. b @ [plot_value (nan_marker w) (vals ! i)]) (buf_y w)\<rparr>)"

definition trim_buffers :: "'v window \<Rightarrow> 'v window" where
  "trim_buffers w =
     (if length (buf_x w) > max_points w
      then (let d = length (buf_x w) - max_points w
            in w\<lparr>buf_x := drop d (buf_x w), buf_y := for_channels (\<lambda>i b. drop d b) (buf_y w)\<rparr>)
      else w)"

definition on_sample :: "('v \<Rightarrow> string) \<Rightarrow> 'v Sample \<Rightarrow> 'v window \<Rightarrow> 'v window" where
  "on_sample shw smp w = trim_buffers (append_buffers smp (write_csv shw smp w))"

definition on_error :: "string \<Rightarrow> 'v window \<Rightarrow> 'v window" where
  "on_error m w = w\<lparr>ui_log := ui_log w @ [ShowError m]\<rparr>"

text \<open>\<^verbatim>\<open>MainWindow.on_finished\<close>: flush and close the CSV file if one is open.\<close>

definition on_finished :: "'v window \<Rightarrow> 'v window" where
  "on_finished w =
     (case csv_file w of
        None \<Rightarrow> w
      | Some path \<Rightarrow> w\<lparr>csv_file := None, ui_log := ui_log w @ [CsvClosed]\<rparr>)"

text \<open>
  The worker's signals are queued to the window's thread and handled there one after the
  other, in the order of emission.
\<close>

definition handle_signal :: "('v \<Rightarrow> string) \<Rightarrow> 'v signal \<Rightarrow> 'v window \<Rightarrow> 'v window" where
  "handle_signal shw sg w =
     (case sg of
        SigSample smp \<Rightarrow> on_sample shw smp w
      | SigStatus st \<Rightarrow> w
      | SigError m \<Rightarrow> on_error m w
      | SigFinished \<Rightarrow> on_finished w)"

definition deliver :: "('v \<Rightarrow> string) \<Rightarrow> 'v signal list \<Rightarrow> 'v window \<Rightarrow> 'v window" where
  "deliver shw sgs w = fold (handle_signal shw) sgs w"

section \<open>Properties of the live buffers\<close>

text \<open>The last \<open>n\<close> entries of a list: what a FIFO of capacity \<open>n\<close> keeps.\<close>

definition lastn :: "nat \<Rightarrow> 'a list \<Rightarrow> 'a list" where
  "lastn n xs = drop (length xs - n) xs"

text \<open>There are four channel buffers, each as long as the x-axis buffer.\<close>

definition aligned :: "'v window \<Rightarrow> bool" where
  "aligned w = (length (buf_y w) = 4 \<and> list_all (\<lambda>b. length b = length (buf_x w)) (buf_y w))"

section \<open>Properties of traces\<close>

text \<open>
  The part of a trace from the first stop request on, and the numbers of samples emitted and
  of ticks begun (a tick begins with its \<open>Wait\<close> event) in a trace.
\<close>

fun is_sample_emit :: "'v event \<Rightarrow> bool" where
  "is_sample_emit (Emit (SigSample smp)) = True"
| "is_sample_emit e = False"

fun is_wait :: "'v event \<Rightarrow> bool" where
  "is_wait (Wait d n z) = True"
| "is_wait e = False"

definition after_stop :: "'v event list \<Rightarrow> 'v event list" where
  "after_stop tr = dropWhile (\<lambda>e. e \<noteq> StopRequested) tr"

definition samples_in :: "'v event list \<Rightarrow> nat" where
  "samples_in tr = length (filter is_sample_emit tr)"

definition ticks_in :: "'v event list \<Rightarrow> nat" where
  "ticks_in tr = length (filter is_wait tr)"

section \<open>Properties of runs\<close>

text \<open>
  A tick of the CLI loop is normal when Ctrl+C does not arrive and the device read returns.
  \<open>tick_sample\<close> is the Sample such a tick produces, \<open>rows_text\<close> the text of the data rows
  of a list of Samples, in order, and \<open>printed_samples\<close> counts the per-sample lines on
  standard output.
\<close>

definition normal_tick :: "('v, 'a) cli_tick_scheme \<Rightarrow> bool" where
  "normal_tick t = (\<not> sleep_interrupted t \<and> (case reading t of Temps temps \<Rightarrow> True | Raises e \<Rightarrow> False))"

definition tick_sample :: "('v, 'a) tick_scheme \<Rightarrow> 'v Sample" where
  "tick_sample t = process (stamp t) (case reading t of Temps temps \<Rightarrow> temps | Raises e \<Rightarrow> None)"

definition rows_text :: "('v \<Rightarrow> string) \<Rightarrow> 'v Sample list \<Rightarrow> string" where
  "rows_text shw smps = concat (map (sample_line shw) smps)"

definition printed_samples :: "'v event list \<Rightarrow> nat" where
  "printed_samples tr = length (filter (\<lambda>e. e = Stdout InfoSample) tr)"

text \<open>
  A tick of the worker loop is quiet when no stop request arrives and the device read returns.
\<close>

definition quiet_tick :: "('v, 'a) gui_tick_scheme \<Rightarrow> bool" where
  "quiet_tick t = (stop_request t = None \<and> (case reading t of Temps temps \<Rightarrow> True | Raises e \<Rightarrow> False))"

text \<open>The state of \<open>cli_main\<close> when it enters the \<^verbatim>\<open>try\<close> statement.\<close>

definition cli_before_try :: "cli_args \<Rightarrow> 'v cli_env \<Rightarrow> 'v run_state" where
  "cli_before_try a env =
     logev [Stdout InfoReading, Stdout (if count a > 0 then InfoWillCollect else InfoForever)]
       (logev [OpenPort] (logev [EnsureParentDir (out_path a)] (init_state (files0 env))))"

text \<open>The signals of a worker run that emits the given samples and is then stopped.\<close>

definition session_signals :: "'v Sample list \<Rightarrow> 'v signal list" where
  "session_signals smps =
     [SigStatus StatusRunning] @ map SigSample smps @ [SigStatus StatusStopped, SigFinished]"

section \<open>Ctrl+C while the command-line front end starts up\<close>

text \<open>
  \<open>cli_main\<close> lets Ctrl+C arrive inside the loop only. It can also arrive while \<^verbatim>\<open>main\<close> starts
  up: before \<^verbatim>\<open>reader.open()\<close> has opened the port, after the port has been found open and
  before the \<^verbatim>\<open>try\<close> statement is entered (lines 76 to 88), or inside \<^verbatim>\<open>try\<close> before the file is
  opened. In the first two cases \<^verbatim>\<open>KeyboardInterrupt\<close> leaves \<^verbatim>\<open>main\<close> at once, since neither
  \<^verbatim>\<open>except\<close> nor \<^verbatim>\<open>finally\<close> is in force; in the third the \<^verbatim>\<open>except\<close> clause prints, \<^verbatim>\<open>finally\<close>
  closes the reader and \<^verbatim>\<open>main\<close> returns 0. A run has at most one Ctrl+C.
\<close>

datatype startup_point = BeforeOpen | BeforeTry | InTry

definition cli_main_startup ::
  "startup_point option \<Rightarrow> ('v \<Rightarrow> string) \<Rightarrow> cli_args \<Rightarrow> 'v cli_env \<Rightarrow> result \<times> 'v run_state"
where
  "cli_main_startup si shw a env =
     (if interval a \<le> 0 then cli_main shw a env
      else case si of
             None \<Rightarrow> cli_main shw a env
           | Some BeforeOpen \<Rightarrow>
               (Propagate KeyboardInterrupt,
                logev [EnsureParentDir (out_path a)] (init_state (files0 env)))
           | Some BeforeTry \<Rightarrow>
               if \<not> port_opens env then cli_main shw a env
               else (Propagate KeyboardInterrupt,
                     logev [OpenPort] (logev [EnsureParentDir (out_path a)] (init_state (files0 env))))
           | Some InTry \<Rightarrow>
               if \<not> port_opens env then cli_main shw a env
               else (Return 0, cli_finally (logev [Stdout InfoInterrupted] (cli_before_try a env))))"


section \<open>Properties of teardown\<close>






section \<open>Properties of the schedule\<close>

text \<open>
  The scheduling events of a trace are its \<open>Wait\<close>, \<open>Advance\<close> and \<open>ReadDevice\<close> events.
  \<open>follows_schedule iv d es\<close> checks that \<open>es\<close> is a sequence of ticks, the first with deadline
  \<open>d\<close>: each tick waits for its deadline, sleeping for the remaining time if the clock is behind
  the deadline and not at all otherwise, then moves the deadline on by \<open>iv\<close>, then reads the
  device. A last tick may end in its wait (Ctrl+C during the sleep).
\<close>

fun is_sched :: "'v event \<Rightarrow> bool" where
  "is_sched (Wait d n z) = True"
| "is_sched (Advance d) = True"
| "is_sched ReadDevice = True"
| "is_sched e = False"

definition sched_events :: "'v event list \<Rightarrow> 'v event list" where
  "sched_events tr = filter is_sched tr"

fun follows_schedule :: "real \<Rightarrow> real \<Rightarrow> 'v event list \<Rightarrow> bool" where
  "follows_schedule iv d [] = True"
| "follows_schedule iv d [Wait d' n z] = (d' = d \<and> z = max 0 (d - n))"
| "follows_schedule iv d (Wait d' n z # Advance d'' # ReadDevice # es) =
     (d' = d \<and> z = max 0 (d - n) \<and> d'' = d + iv \<and> follows_schedule iv (d + iv) es)"
| "follows_schedule iv d es = False"

text \<open>The (deadline, clock reading, time slept) triples of the ticks of a trace.\<close>

fun waits :: "'v event list \<Rightarrow> (real \<times> real \<times> real) list" where
  "waits [] = []"
| "waits (Wait d n z # es) = (d, n, z) # waits es"
| "waits (e # es) = waits es"

text \<open>
  A catch-up burst: some tick begins without sleeping less than one interval after the
  previous tick stopped waiting.
\<close>

fun catch_up_burst :: "real \<Rightarrow> (real \<times> real \<times> real) list \<Rightarrow> bool" where
  "catch_up_burst iv ((d1, n1, z1) # (d2, n2, z2) # ws) =
     ((z2 = 0 \<and> n2 - (n1 + z1) < iv) \<or> catch_up_burst iv ((d2, n2, z2) # ws))"
| "catch_up_burst iv ws = False"

text \<open>A run of four ticks whose first device read takes three and a half intervals.\<close>

definition slow_read_env :: "nat cli_env" where
  "slow_read_env = \<lparr>files0 = Map.empty, port_opens = True, file_open_error = None, t0 = 0, ticks =
       [\<lparr>oversleep = 0, reading = Temps None, latency = 7 / 2,
          stamp = ''2024-05-01 12:00:03'', sleep_interrupted = False\<rparr>,
        \<lparr>oversleep = 0, reading = Temps None, latency = 0,
          stamp = ''2024-05-01 12:00:03'', sleep_interrupted = False\<rparr>,
        \<lparr>oversleep = 0, reading = Temps None, latency = 0,
          stamp = ''2024-05-01 12:00:03'', sleep_interrupted = False\<rparr>,
        \<lparr>oversleep = 0, reading = Temps None, latency = 0,
          stamp = ''2024-05-01 12:00:03'', sleep_interrupted = False\<rparr>]\<rparr>"

definition slow_read_args :: cli_args where
  "slow_read_args = \<lparr>interval = 1, count = 4, out_path = ''log.csv'', appendMode = False\<rparr>"

section \<open>Interval control of the graphical front end\<close>

text \<open>
  \<^verbatim>\<open>self.interval_spin.setRange(0.1, 3600.0)\<close>: the value that \<^verbatim>\<open>start\<close> reads from the spin box
  lies in this range.
\<close>

definition interval_spin_range :: "real \<times> real" where
  "interval_spin_range = (1 / 10, 3600)"

definition interval_spin_value :: "real \<Rightarrow> bool" where
  "interval_spin_value v = (fst interval_spin_range \<le> v \<and> v \<le> snd interval_spin_range)"

section \<open>Verified properties\<close>

subsection \<open>Auxiliary facts\<close>

lemma header_line_text: "header_line = ''timestamp_local,ch1_c,ch2_c,ch3_c,ch4_c'' @ crlf"
  by (simp add: header_line_def writerow_def csv_fields_def header_cells_def csv_field_def
      csv_quote_def needs_quote_def dquote_def crlf_def)

lemma process_short:
  assumes "case temps of None \<Rightarrow> True | Some xs \<Rightarrow> length xs < 4"
  shows "process t temps = unknown_sample t"
  using assms by (simp add: process_def split: option.splits)

lemma unknown_fields: "csv_fields shw (sample_cells (unknown_sample t)) = [t, [], [], [], []]"
  by (simp add: csv_fields_def sample_cells_def unknown_sample_def csv_field_def cell_of_def)

lemma unknown_line: "sample_line shw (unknown_sample t) = csv_quote t @ '',,,,'' @ crlf"
  by (simp add: sample_line_def writerow_def unknown_fields csv_quote_def needs_quote_def)

lemma four_elems: "length ys = 4 \<Longrightarrow> \<exists>a b c d. ys = [a, b, c, d]"
  by (auto simp: eval_nat_numeral length_Suc_conv)

lemma for_channels_four: "for_channels f [a, b, c, d] = [f 0 a, f 1 b, f 2 c, f 3 d]"
  by (simp add: for_channels_def eval_nat_numeral)

lemma lastn_absorb: "lastn n (lastn n xs @ ys) = lastn n (xs @ ys)"
  by (cases "length xs \<le> n") (auto simp: lastn_def add.commute)

lemma lastn_short: "length xs \<le> n \<Longrightarrow> lastn n xs = xs"
  by (simp add: lastn_def)


lemma aligned_start: "length (buf_y w) = 4 \<Longrightarrow> aligned (window_start path app w)"
  by (auto simp: aligned_def window_start_def for_channels_four dest!: four_elems)

lemma aligned_other: "aligned w \<Longrightarrow> aligned (on_error m w) \<and> aligned (on_finished w)"
  by (simp add: aligned_def on_error_def on_finished_def split: option.splits)

lemma signals_append: "signals (xs @ ys) = signals xs @ signals ys"
  by (induction xs rule: signals.induct) simp_all

subsection \<open>Header decision\<close>

text \<open>
  What each front end does when it opens the log. The command-line front end writes the header
  row if and only if the target did not exist and the mode is not append, and an existing
  target always keeps its content. The graphical front end writes the header row unless the
  mode is append and the target exists; only in that one combination is the existing content
  kept, in every other one the file starts with the header row alone.
\<close>

lemma header_written_per_front_end:
  "snd (cli_open_decision app ex) = (\<not> ex \<and> \<not> app)
   \<and> cli_open_sink fs p app p =
       (case fs p of Some c \<Rightarrow> Some c | None \<Rightarrow> Some (if app then [] else header_line))
   \<and> snd (gui_open_decision app ex) = (\<not> (app \<and> ex))
   \<and> gui_open_csv fs p app p =
       (case fs p of Some c \<Rightarrow> Some (if app then c else header_line) | None \<Rightarrow> Some header_line)"
  by (simp add: cli_open_sink_def gui_open_csv_def open_sink_def gui_open_decision_def
      cli_open_decision_def path_exists_def py_open_def fwrite_def content_def split: option.splits)

text \<open>
  C2. A header row is to be written if and only if the target did not exist and the mode is
  not append, and existing content is to be kept otherwise. The command-line front end does
  so; the graphical front end does not: with append off and an existing target it writes the
  header row and the previous content is gone, and with append on and no target it writes the
  header row as well.
\<close>

theorem gui_header_on_existing_target:
  "snd (gui_open_decision False True)
   \<and> gui_open_csv [''log.csv'' \<mapsto> ''old''] ''log.csv'' False ''log.csv'' = Some header_line
   \<and> snd (gui_open_decision True False)
   \<and> gui_open_csv Map.empty ''log.csv'' True ''log.csv'' = Some header_line
   \<and> \<not> snd (cli_open_decision False True)
   \<and> cli_open_sink [''log.csv'' \<mapsto> ''old''] ''log.csv'' False ''log.csv'' = Some ''old''
   \<and> \<not> snd (cli_open_decision True False)
   \<and> cli_open_sink Map.empty ''log.csv'' True ''log.csv'' = Some []"
  by (simp add: gui_open_csv_def cli_open_sink_def open_sink_def gui_open_decision_def
      cli_open_decision_def path_exists_def py_open_def fwrite_def content_def)

subsection \<open>Unknown readings\<close>

text \<open>
  C3. A raw read that is absent, empty or shorter than four values gives a Sample whose four
  readings are all the unknown marker \<open>None\<close>; its CSV row has the time stamp followed by four
  empty fields, and that row is what the CLI loop and the GUI's \<open>on_sample\<close> append to the log.
\<close>

theorem short_read_all_unknown:
  assumes "case temps of None \<Rightarrow> True | Some xs \<Rightarrow> length xs < 4"
  shows "process t temps = \<lparr>ts = t, ch1 = None, ch2 = None, ch3 = None, ch4 = None\<rparr>
    \<and> csv_fields shw (sample_cells (process t temps)) = [t, [], [], [], []]
    \<and> sample_line shw (process t temps) = csv_quote t @ '',,,,'' @ crlf
    \<and> (reading tk = Temps temps \<and> stamp tk = t \<and> \<not> sleep_interrupted tk \<longrightarrow>
         fst (cli_tick_body shw a tk s) = None
         \<and> content (files (snd (cli_tick_body shw a tk s))) (out_path a)
             = content (files s) (out_path a) @ csv_quote t @ '',,,,'' @ crlf)
    \<and> (csv_file w = Some p \<longrightarrow>
         content (wfiles (on_sample shw (process t temps) w)) p
           = content (wfiles w) p @ csv_quote t @ '',,,,'' @ crlf)"
proof -
  have u: "process t temps = unknown_sample t"
    using assms by (rule process_short)
  have cli: "reading tk = Temps temps \<and> stamp tk = t \<and> \<not> sleep_interrupted tk \<longrightarrow>
         fst (cli_tick_body shw a tk s) = None
         \<and> content (files (snd (cli_tick_body shw a tk s))) (out_path a)
             = content (files s) (out_path a) @ csv_quote t @ '',,,,'' @ crlf"
    by (simp add: cli_tick_body_def Let_def u unknown_line wait_deadline_def advance_deadline_def
        read_device_def logev_def fwrite_def content_def)
  have gui: "csv_file w = Some p \<longrightarrow>
         content (wfiles (on_sample shw (process t temps) w)) p
           = content (wfiles w) p @ csv_quote t @ '',,,,'' @ crlf"
    by (simp add: on_sample_def trim_buffers_def append_buffers_def write_csv_def Let_def u
        unknown_line fwrite_def content_def)
  have p1: "process t temps = \<lparr>ts = t, ch1 = None, ch2 = None, ch3 = None, ch4 = None\<rparr>"
    by (simp add: u unknown_sample_def)
  have p2: "csv_fields shw (sample_cells (process t temps)) = [t, [], [], [], []]"
    by (simp add: u unknown_fields)
  have p3: "sample_line shw (process t temps) = csv_quote t @ '',,,,'' @ crlf"
    by (simp add: u unknown_line)
  show ?thesis
    using p1 p2 p3 cli gui by blast
qed

theorem short_read_all_unknown_witness:
  "process ''2024-05-01 12:00:00'' (Some [Some (Num 21), Some (Num 22)])
     = \<lparr>ts = ''2024-05-01 12:00:00'', ch1 = None, ch2 = None, ch3 = None, ch4 = None\<rparr>
   \<and> sample_line (\<lambda>v::pyfloat. ''7'') (process ''2024-05-01 12:00:00'' (Some [Some (Num 21), Some (Num 22)]))
     = ''2024-05-01 12:00:00,,,,'' @ crlf
   \<and> content (files (snd (cli_tick_body (\<lambda>v::pyfloat. ''7'')
         \<lparr>interval = 1, count = 0, out_path = ''log.csv'', appendMode = False\<rparr>
         \<lparr>oversleep = 0, reading = Temps (Some [Some (Num 21), Some (Num 22)]), latency = 0,
           stamp = ''2024-05-01 12:00:00'', sleep_interrupted = False\<rparr>
         (init_state Map.empty)))) ''log.csv''
     = ''2024-05-01 12:00:00,,,,'' @ crlf
   \<and> content (wfiles (on_sample (\<lambda>v::pyfloat. ''7'')
         (process ''2024-05-01 12:00:00'' (Some [Some (Num 21), Some (Num 22)]))
         (window_start ''log.csv'' False (init_window NaN Map.empty)))) ''log.csv''
     = header_line @ ''2024-05-01 12:00:00,,,,'' @ crlf"
proof -
  let ?temps = "Some [Some (Num 21), Some (Num 22)]"
  let ?t = "''2024-05-01 12:00:00''"
  let ?a = "\<lparr>interval = 1, count = 0, out_path = ''log.csv'', appendMode = False\<rparr>"
  let ?tk = "\<lparr>oversleep = 0, reading = Temps ?temps, latency = 0, stamp = ?t,
               sleep_interrupted = False\<rparr>"
  let ?s = "init_state Map.empty :: pyfloat run_state"
  let ?w = "window_start ''log.csv'' False (init_window NaN Map.empty) :: pyfloat window"
  have h: "case ?temps of None \<Rightarrow> True | Some xs \<Rightarrow> length xs < 4"
    by simp
  note th = short_read_all_unknown [OF h, of ?t "\<lambda>v. ''7''" ?tk ?a ?s ?w "''log.csv''"]
  have a: "process ?t ?temps = \<lparr>ts = ?t, ch1 = None, ch2 = None, ch3 = None, ch4 = None\<rparr>"
    using th by (rule conjunct1)
  have b: "sample_line (\<lambda>v. ''7'') (process ?t ?temps) = csv_quote ?t @ '',,,,'' @ crlf"
    using th by blast
  have c: "csv_quote ?t = ?t"
    by (simp add: csv_quote_def needs_quote_def dquote_def crlf_def)
  have pre: "reading ?tk = Temps ?temps \<and> stamp ?tk = ?t \<and> \<not> sleep_interrupted ?tk"
    "csv_file ?w = Some ''log.csv''"
    by (simp_all add: window_start_def)
  have d: "content (files (snd (cli_tick_body (\<lambda>v. ''7'') ?a ?tk ?s))) (out_path ?a)
             = content (files ?s) (out_path ?a) @ csv_quote ?t @ '',,,,'' @ crlf"
    using th pre(1) by blast
  have e: "content (wfiles (on_sample (\<lambda>v. ''7'') (process ?t ?temps) ?w)) ''log.csv''
             = content (wfiles ?w) ''log.csv'' @ csv_quote ?t @ '',,,,'' @ crlf"
    using th pre(2) by blast
  have f: "content (files ?s) ''log.csv'' = []" "content (wfiles ?w) ''log.csv'' = header_line"
    by (simp_all add: init_state_def content_def window_start_def init_window_def gui_open_csv_def
        open_sink_def gui_open_decision_def path_exists_def py_open_def fwrite_def)
  have b': "sample_line (\<lambda>v. ''7'') (process ?t ?temps) = ?t @ '',,,,'' @ crlf"
    using b unfolding c .
  have d': "content (files (snd (cli_tick_body (\<lambda>v. ''7'') ?a ?tk ?s))) ''log.csv''
              = ?t @ '',,,,'' @ crlf"
    using d unfolding c by (simp add: f)
  have e': "content (wfiles (on_sample (\<lambda>v. ''7'') (process ?t ?temps) ?w)) ''log.csv''
              = header_line @ ?t @ '',,,,'' @ crlf"
    using e unfolding c by (simp only: f)
  show ?thesis
    using a b' d' e' by simp
qed

subsection \<open>Rejecting a non-positive interval\<close>

lemma gui_interval_positive: "interval_spin_value v \<Longrightarrow> 0 < v"
  by (simp add: interval_spin_value_def interval_spin_range_def)

text \<open>
  C8. With an interval that is zero or negative, \<open>cli_main\<close> returns exit status 2 at once:
  its only effect is the error message; no directory, port or file is touched and no tick
  runs.
\<close>

theorem nonpositive_interval_rejected:
  assumes "interval a \<le> 0"
  shows "cli_main shw a env = (Return 2, (init_state (files0 env))\<lparr>trace := [Stderr ErrInterval]\<rparr>)
    \<and> files (snd (cli_main shw a env)) = files0 env"
  using assms by (simp add: cli_main_def logev_def init_state_def)

theorem nonpositive_interval_rejected_witness:
  "fst (cli_main (\<lambda>v::nat. ''7'') \<lparr>interval = 0, count = 3, out_path = ''log.csv'', appendMode = False\<rparr>
      \<lparr>files0 = Map.empty, port_opens = True, file_open_error = None, t0 = 0, ticks = []\<rparr>) = Return 2"
  using nonpositive_interval_rejected [of "\<lparr>interval = 0, count = 3, out_path = ''log.csv'', appendMode = False\<rparr>"
      "\<lambda>v::nat. ''7''" "\<lparr>files0 = Map.empty, port_opens = True, file_open_error = None, t0 = 0, ticks = []\<rparr>"]
  by simp

subsection \<open>Live buffers\<close>

lemma live_buffers_step:
  assumes "aligned w"
  shows "aligned (on_sample shw smp w)
    \<and> length (buf_x (on_sample shw smp w)) \<le> max_points w
    \<and> list_all (\<lambda>b. length b \<le> max_points w) (buf_y (on_sample shw smp w))
    \<and> max_points (on_sample shw smp w) = max_points w
    \<and> nan_marker (on_sample shw smp w) = nan_marker w
    \<and> buf_x (on_sample shw smp w) = lastn (max_points w) (buf_x w @ [idx w])
    \<and> buf_y (on_sample shw smp w) =
        [lastn (max_points w) (buf_y w ! 0 @ [plot_value (nan_marker w) (ch1 smp)]),
         lastn (max_points w) (buf_y w ! 1 @ [plot_value (nan_marker w) (ch2 smp)]),
         lastn (max_points w) (buf_y w ! 2 @ [plot_value (nan_marker w) (ch3 smp)]),
         lastn (max_points w) (buf_y w ! 3 @ [plot_value (nan_marker w) (ch4 smp)])]"
proof -
  from assms obtain a b c d where y: "buf_y w = [a, b, c, d]"
    using four_elems unfolding aligned_def by blast
  from assms y have len: "length a = length (buf_x w)" "length b = length (buf_x w)"
     "length c = length (buf_x w)" "length d = length (buf_x w)"
    by (simp_all add: aligned_def)
  show ?thesis
    using len
    by (cases "max_points w")
       (auto simp: on_sample_def trim_buffers_def append_buffers_def write_csv_def y
        for_channels_four aligned_def lastn_def Let_def split: option.splits)
qed

text \<open>The buffers after a whole session: the last \<open>max_points\<close> values of each channel.\<close>

lemma buffers_after_run:
  assumes "aligned w" and "length (buf_x w) \<le> max_points w"
  shows "aligned (fold (on_sample shw) smps w)
    \<and> max_points (fold (on_sample shw) smps w) = max_points w
    \<and> nan_marker (fold (on_sample shw) smps w) = nan_marker w
    \<and> length (buf_x (fold (on_sample shw) smps w)) \<le> max_points w
    \<and> buf_y (fold (on_sample shw) smps w) =
        [lastn (max_points w) (buf_y w ! 0 @ map (plot_value (nan_marker w) \<circ> ch1) smps),
         lastn (max_points w) (buf_y w ! 1 @ map (plot_value (nan_marker w) \<circ> ch2) smps),
         lastn (max_points w) (buf_y w ! 2 @ map (plot_value (nan_marker w) \<circ> ch3) smps),
         lastn (max_points w) (buf_y w ! 3 @ map (plot_value (nan_marker w) \<circ> ch4) smps)]"
  using assms
proof (induction smps arbitrary: w)
  case Nil
  from Nil.prems(1) obtain a b c d where y: "buf_y w = [a, b, c, d]"
    using four_elems unfolding aligned_def by blast
  with Nil.prems show ?case
    by (simp add: aligned_def lastn_short)
next
  case (Cons smp smps)
  let ?w = "on_sample shw smp w"
  note st = live_buffers_step [OF Cons.prems(1), of shw smp]
  from st have a: "aligned ?w"
    by blast
  from st have m: "max_points ?w = max_points w" and n: "nan_marker ?w = nan_marker w"
    by blast+
  from st have "length (buf_x ?w) \<le> max_points w"
    by blast
  with m have l: "length (buf_x ?w) \<le> max_points ?w"
    by simp
  from st have y: "buf_y ?w =
        [lastn (max_points w) (buf_y w ! 0 @ [plot_value (nan_marker w) (ch1 smp)]),
         lastn (max_points w) (buf_y w ! 1 @ [plot_value (nan_marker w) (ch2 smp)]),
         lastn (max_points w) (buf_y w ! 2 @ [plot_value (nan_marker w) (ch3 smp)]),
         lastn (max_points w) (buf_y w ! 3 @ [plot_value (nan_marker w) (ch4 smp)])]"
    by blast
  from Cons.IH [OF a l] show ?case
    by (simp add: m n y lastn_absorb eval_nat_numeral)
qed




subsection \<open>The two front ends decide differently\<close>

text \<open>
  C10. The two front ends do not take the same (mode, header) decision. With append off and
  an existing target the CLI appends without a header while the GUI truncates and writes the
  header; with append on and no target the CLI writes no header, the GUI does. The help text
  of the CLI option \<^verbatim>\<open>--append\<close> ("instead of overwriting/creating a new one") describes what
  the GUI does.
\<close>

theorem front_ends_disagree:
  "cli_open_decision False True = (ModeA, False) \<and> gui_open_decision False True = (ModeW, True)
   \<and> cli_open_decision True False = (ModeA, False) \<and> gui_open_decision True False = (ModeW, True)"
  by (simp add: cli_open_decision_def gui_open_decision_def)

subsection \<open>Stop requests\<close>

lemma after_stop_append:
  "StopRequested \<notin> set tr \<Longrightarrow> after_stop (tr @ tr') = after_stop tr'"
  by (simp add: after_stop_def dropWhile_append)

lemma after_stop_hit: "after_stop (StopRequested # tr) = StopRequested # tr"
  by (simp add: after_stop_def)

lemma loop_when_flagged:
  assumes "stop_flag s"
  shows "\<exists>new. trace (snd (worker_loop iv tks s)) = trace s @ new \<and> set new \<subseteq> {StopRequested}
     \<and> (tks \<noteq> [] \<longrightarrow> fst (worker_loop iv tks s) = Done)"
  using assms by (cases tks) (auto simp: arrive_def request_stop_def logev_def)

lemma tail_quiet:
  assumes "set new \<subseteq> {StopRequested}"
  shows "samples_in (pre @ new) = samples_in pre" and "ticks_in (pre @ new) = ticks_in pre"
proof -
  have "filter is_sample_emit new = []" "filter is_wait new = []"
    using assms by (auto simp: filter_empty_conv)
  then show "samples_in (pre @ new) = samples_in pre" and "ticks_in (pre @ new) = ticks_in pre"
    by (simp_all add: samples_in_def ticks_in_def)
qed

text \<open>The events of one body of the worker loop.\<close>

lemma body_events:
  "\<exists>d n z. trace (snd (worker_tick_body iv t s)) =
      trace s @ [Wait d n z] @ (if stop_request t = Some DuringSleep then [StopRequested] else [])
        @ [Advance (next_t s + iv), ReadDevice]
        @ (if stop_request t = Some DuringRead then [StopRequested] else [])
        @ (case reading t of Temps temps \<Rightarrow> [Emit (SigSample (process (stamp t) temps))] | Raises e \<Rightarrow> [])"
  by (simp add: worker_tick_body_def Let_def arrive_def request_stop_def logev_def wait_deadline_def
      advance_deadline_def read_device_def split: read_result.splits)

lemma body_flag:
  "stop_flag (snd (worker_tick_body iv t s)) =
     (stop_flag s \<or> stop_request t = Some DuringSleep \<or> stop_request t = Some DuringRead)"
  by (auto simp: worker_tick_body_def Let_def arrive_def request_stop_def logev_def wait_deadline_def
      advance_deadline_def read_device_def split: read_result.splits)

lemma body_result:
  "fst (worker_tick_body iv t s) = (case reading t of Temps temps \<Rightarrow> None | Raises e \<Rightarrow> Some e)"
  by (simp add: worker_tick_body_def Let_def split: read_result.splits)


lemma loop_unfold:
  assumes "stop_request t \<noteq> Some AtBoundary" and "\<not> stop_flag s"
  shows "snd (worker_loop iv (t # rest) s) =
           (case fst (worker_tick_body iv t s) of
              Some e \<Rightarrow> snd (worker_tick_body iv t s)
            | None \<Rightarrow> snd (worker_loop iv rest (snd (worker_tick_body iv t s))))"
  using assms by (simp add: arrive_def split: prod.splits option.splits)

lemma loop_after_stop:
  assumes "\<not> stop_flag s" and "StopRequested \<notin> set (trace s)"
  shows "\<exists>new. trace (snd (worker_loop iv tks s)) = trace s @ new
           \<and> samples_in (after_stop new) \<le> 1 \<and> ticks_in (after_stop new) = 0"
  using assms
proof (induction tks arbitrary: s)
  case Nil
  then show ?case by (simp add: after_stop_def samples_in_def ticks_in_def)
next
  case (Cons t rest)
  let ?b = "worker_tick_body iv t s"
  obtain d n z where ev: "trace (snd ?b) =
      trace s @ [Wait d n z] @ (if stop_request t = Some DuringSleep then [StopRequested] else [])
        @ [Advance (next_t s + iv), ReadDevice]
        @ (if stop_request t = Some DuringRead then [StopRequested] else [])
        @ (case reading t of Temps temps \<Rightarrow> [Emit (SigSample (process (stamp t) temps))] | Raises e \<Rightarrow> [])"
    using body_events by blast
  show ?case
  proof (cases "stop_request t = Some AtBoundary")
    case True
    with Cons.prems have "trace (snd (worker_loop iv (t # rest) s)) = trace s @ [StopRequested]"
      by (simp add: arrive_def request_stop_def logev_def)
    then show ?thesis
      by (simp add: after_stop_def samples_in_def ticks_in_def)
  next
    case nb: False
    note unf = loop_unfold [OF nb Cons.prems(1), of iv rest]
    show ?thesis
    proof (cases "reading t")
      case (Raises e)
      then have "trace (snd (worker_loop iv (t # rest) s)) = trace (snd ?b)"
        by (simp add: unf body_result del: worker_loop.simps)
      then show ?thesis
        unfolding ev using Raises
        by (simp add: after_stop_def samples_in_def ticks_in_def)
    next
      case (Temps temps)
      then have res: "snd (worker_loop iv (t # rest) s) = snd (worker_loop iv rest (snd ?b))"
        by (simp add: unf body_result del: worker_loop.simps)
      show ?thesis
      proof (cases "stop_request t = Some DuringSleep \<or> stop_request t = Some DuringRead")
        case True
        then have "stop_flag (snd ?b)"
          by (simp add: body_flag)
        then obtain newB where nb1: "trace (snd (worker_loop iv rest (snd ?b))) = trace (snd ?b) @ newB"
          and nb2: "set newB \<subseteq> {StopRequested}"
          using loop_when_flagged by blast
        from True show ?thesis
        proof
          assume a: "stop_request t = Some DuringSleep"
          let ?pre = "[StopRequested, Advance (next_t s + iv), ReadDevice,
                      Emit (SigSample (process (stamp t) temps))]"
          have "trace (snd (worker_loop iv (t # rest) s)) = trace s @ ([Wait d n z] @ ?pre @ newB)"
            by (simp add: res nb1 ev a Temps del: worker_loop.simps)
          moreover have "after_stop ([Wait d n z] @ ?pre @ newB) = ?pre @ newB"
            by (simp add: after_stop_def)
          moreover have "samples_in (?pre @ newB) \<le> 1" "ticks_in (?pre @ newB) = 0"
            using tail_quiet [OF nb2, of ?pre] by (simp_all add: samples_in_def ticks_in_def)
          ultimately show ?thesis
            by metis
        next
          assume a: "stop_request t = Some DuringRead"
          let ?pre = "[StopRequested, Emit (SigSample (process (stamp t) temps))]"
          have "trace (snd (worker_loop iv (t # rest) s))
                  = trace s @ ([Wait d n z, Advance (next_t s + iv), ReadDevice] @ ?pre @ newB)"
            by (simp add: res nb1 ev a Temps del: worker_loop.simps)
          moreover have "after_stop ([Wait d n z, Advance (next_t s + iv), ReadDevice] @ ?pre @ newB) = ?pre @ newB"
            by (simp add: after_stop_def)
          moreover have "samples_in (?pre @ newB) \<le> 1" "ticks_in (?pre @ newB) = 0"
            using tail_quiet [OF nb2, of ?pre] by (simp_all add: samples_in_def ticks_in_def)
          ultimately show ?thesis
            by metis
        qed
      next
        case False
        let ?pre = "[Wait d n z, Advance (next_t s + iv), ReadDevice,
                     Emit (SigSample (process (stamp t) temps))]"
        from False have ev': "trace (snd ?b) = trace s @ ?pre"
          by (simp add: ev Temps)
        from False Cons.prems have f: "\<not> stop_flag (snd ?b)"
          by (simp add: body_flag)
        from ev' Cons.prems have g: "StopRequested \<notin> set (trace (snd ?b))"
          by simp
        from Cons.IH [OF f g] obtain new where
          n1: "trace (snd (worker_loop iv rest (snd ?b))) = trace (snd ?b) @ new"
          and n2: "samples_in (after_stop new) \<le> 1" and n3: "ticks_in (after_stop new) = 0"
          by blast
        have "trace (snd (worker_loop iv (t # rest) s)) = trace s @ (?pre @ new)"
          by (simp add: res n1 ev' del: worker_loop.simps)
        moreover have "after_stop (?pre @ new) = after_stop new"
          by (rule after_stop_append) simp
        ultimately show ?thesis
          using n2 n3 by metis
      qed
    qed
  qed
qed


lemma loop_fst_unfold:
  assumes "stop_request t \<noteq> Some AtBoundary" and "\<not> stop_flag s"
  shows "fst (worker_loop iv (t # rest) s) =
           (case fst (worker_tick_body iv t s) of
              Some e \<Rightarrow> Raised e
            | None \<Rightarrow> fst (worker_loop iv rest (snd (worker_tick_body iv t s))))"
  using assms by (simp add: arrive_def split: prod.splits option.splits)

lemma loop_exits:
  assumes "t \<in> set (butlast tks)" and "stop_request t \<noteq> None"
  shows "fst (worker_loop iv tks s) \<noteq> Pending"
  using assms
proof (induction tks arbitrary: s)
  case Nil
  then show ?case by simp
next
  case (Cons u rest)
  from Cons.prems(1) have ne: "rest \<noteq> []"
    by (auto split: if_splits)
  show ?case
  proof (cases "stop_flag s \<or> stop_request u = Some AtBoundary")
    case True
    then have "stop_flag (arrive AtBoundary u s)"
      by (auto simp: arrive_def request_stop_def logev_def)
    then show ?thesis by simp
  next
    case False
    then have nb: "stop_request u \<noteq> Some AtBoundary" and nf: "\<not> stop_flag s"
      by simp_all
    note unf = loop_fst_unfold [OF nb nf, of iv rest]
    show ?thesis
    proof (cases "fst (worker_tick_body iv u s)")
      case (Some e)
      then show ?thesis by (simp add: unf del: worker_loop.simps)
    next
      case None
      then have r: "fst (worker_loop iv (u # rest) s) = fst (worker_loop iv rest (snd (worker_tick_body iv u s)))"
        by (simp add: unf del: worker_loop.simps)
      show ?thesis
      proof (cases "t = u")
        case True
        with Cons.prems(2) nb have "stop_request u = Some DuringSleep \<or> stop_request u = Some DuringRead"
          by (cases "stop_request u"; simp; rename_tac p; case_tac p; simp)
        then have "stop_flag (snd (worker_tick_body iv u s))"
          by (simp add: body_flag)
        with ne have "fst (worker_loop iv rest (snd (worker_tick_body iv u s))) = Done"
          using loop_when_flagged by blast
        then show ?thesis by (simp add: r del: worker_loop.simps)
      next
        case False
        with Cons.prems(1) ne have "t \<in> set (butlast rest)"
          by simp
        from Cons.IH [OF this Cons.prems(2)] show ?thesis
          by (simp add: r del: worker_loop.simps)
      qed
    qed
  qed
qed

lemma after_stop_split:
  "after_stop (tr @ tr') = (if StopRequested \<in> set tr then after_stop tr @ tr' else after_stop tr')"
  by (auto simp: after_stop_def dropWhile_append)

lemma after_stop_count:
  assumes "samples_in (after_stop new) \<le> 1" and "ticks_in (after_stop new) = 0"
    and "StopRequested \<notin> set pre" and "StopRequested \<notin> set post"
    and "samples_in post = 0" and "ticks_in post = 0"
  shows "samples_in (after_stop (pre @ new @ post)) \<le> 1 \<and> ticks_in (after_stop (pre @ new @ post)) = 0"
proof -
  have a: "after_stop (pre @ new @ post) = after_stop (new @ post)"
    using assms(3) by (rule after_stop_append)
  have e: "after_stop post = []"
    using assms(4) by (auto simp: after_stop_def dropWhile_eq_Nil_conv)
  have b: "after_stop (new @ post) = (if StopRequested \<in> set new then after_stop new @ post else [])"
    by (simp add: after_stop_split e)
  show ?thesis
    using assms(1,2,5,6) by (simp add: a b samples_in_def ticks_in_def)
qed

text \<open>
  C6. In every run of the worker, at most one sample is emitted after the first stop request
  and no tick begins after it: the flag is read only by the loop condition, so the body in
  progress completes and the loop is left at the next evaluation of the condition. If a
  request arrives and the loop condition is evaluated once more afterwards, the run ends.
\<close>

theorem stop_allows_one_more_sample:
  "samples_in (after_stop (trace (snd (worker_run iv env)))) \<le> 1
   \<and> ticks_in (after_stop (trace (snd (worker_run iv env)))) = 0
   \<and> (gport_opens env \<and> list_ex (\<lambda>t. stop_request t \<noteq> None) (butlast (gticks env))
        \<longrightarrow> fst (worker_run iv env) \<noteq> Running)"
proof -
  let ?s2 = "(logev [Emit (SigStatus StatusRunning)] (logev [OpenPort] (init_state Map.empty)))
               \<lparr>clock := gt0 env, next_t := gt0 env\<rparr> :: 'a run_state"
  let ?pre = "[OpenPort, Emit (SigStatus StatusRunning)] :: 'a event list"
  have t2: "trace ?s2 = ?pre" and f2: "\<not> stop_flag ?s2"
    by (simp_all add: logev_def init_state_def)
  obtain new where n1: "trace (snd (worker_loop iv (gticks env) ?s2)) = ?pre @ new"
    and n2: "samples_in (after_stop new) \<le> 1" and n3: "ticks_in (after_stop new) = 0"
    using loop_after_stop [of ?s2 iv "gticks env"] t2 f2 by auto
  have tr: "\<exists>post. trace (snd (worker_run iv env)) = ?pre @ new @ post
              \<and> StopRequested \<notin> set post \<and> samples_in post = 0 \<and> ticks_in post = 0"
    if "gport_opens env"
    using that n1
    by (cases "worker_loop iv (gticks env) ?s2")
       (auto simp: worker_run_def Let_def worker_finally_def logev_def samples_in_def ticks_in_def
             split: loop_exit.splits exn.splits)
  have count: "samples_in (after_stop (trace (snd (worker_run iv env)))) \<le> 1
     \<and> ticks_in (after_stop (trace (snd (worker_run iv env)))) = 0"
  proof (cases "gport_opens env")
    case True
    from tr [OF True] obtain post where "trace (snd (worker_run iv env)) = ?pre @ new @ post"
      "StopRequested \<notin> set post" "samples_in post = 0" "ticks_in post = 0"
      by blast
    then show ?thesis
      using after_stop_count [OF n2 n3, of ?pre post] by simp
  next
    case False
    then show ?thesis
      by (simp add: worker_run_def Let_def worker_finally_def logev_def init_state_def
          after_stop_def samples_in_def ticks_in_def)
  qed
  have ex: "fst (worker_run iv env) \<noteq> Running"
    if "gport_opens env" and "list_ex (\<lambda>t. stop_request t \<noteq> None) (butlast (gticks env))"
  proof -
    from that(2) obtain t where "t \<in> set (butlast (gticks env))" "stop_request t \<noteq> None"
      by (auto simp: list_ex_iff)
    then have "fst (worker_loop iv (gticks env) ?s2) \<noteq> Pending"
      by (rule loop_exits)
    with that(1) show ?thesis
      by (cases "worker_loop iv (gticks env) ?s2")
         (auto simp: worker_run_def Let_def split: loop_exit.splits exn.splits)
  qed
  from count ex show ?thesis
    by blast
qed

theorem stop_allows_one_more_sample_witness:
  "gport_opens \<lparr>gport_opens = True, gt0 = 0, gticks =
       [\<lparr>oversleep = 0, reading = Temps (None :: nat option list option), latency = 0,
          stamp = ''2024-05-01 12:00:00'', stop_request = Some DuringSleep\<rparr>,
        \<lparr>oversleep = 0, reading = Temps None, latency = 0,
          stamp = ''2024-05-01 12:00:01'', stop_request = None\<rparr>]\<rparr>
   \<and> fst (worker_run 1 \<lparr>gport_opens = True, gt0 = 0, gticks =
       [\<lparr>oversleep = 0, reading = Temps (None :: nat option list option), latency = 0,
          stamp = ''2024-05-01 12:00:00'', stop_request = Some DuringSleep\<rparr>,
        \<lparr>oversleep = 0, reading = Temps None, latency = 0,
          stamp = ''2024-05-01 12:00:01'', stop_request = None\<rparr>]\<rparr>) \<noteq> Running"
  using stop_allows_one_more_sample [of 1 "\<lparr>gport_opens = True, gt0 = 0, gticks =
       [\<lparr>oversleep = 0, reading = Temps (None :: nat option list option), latency = 0,
          stamp = ''2024-05-01 12:00:00'', stop_request = Some DuringSleep\<rparr>,
        \<lparr>oversleep = 0, reading = Temps None, latency = 0,
          stamp = ''2024-05-01 12:00:01'', stop_request = None\<rparr>]\<rparr>"]
  by simp

subsection \<open>Runs of the command-line front end\<close>

lemma cli_body_normal:
  assumes "normal_tick t"
  shows "fst (cli_tick_body shw a t s) = None"
    and "samples_written (snd (cli_tick_body shw a t s)) = samples_written s + 1"
    and "files (snd (cli_tick_body shw a t s)) = fwrite (files s) (out_path a) (sample_line shw (tick_sample t))"
    and "ticks_in (trace (snd (cli_tick_body shw a t s))) = ticks_in (trace s) + 1"
    and "printed_samples (trace (snd (cli_tick_body shw a t s))) = printed_samples (trace s) + 1"
  using assms
  by (auto simp: normal_tick_def cli_tick_body_def Let_def tick_sample_def wait_deadline_def
      advance_deadline_def read_device_def logev_def ticks_in_def printed_samples_def
      split: read_result.splits)

lemma fwrite_twice:
  "fwrite (fwrite fs p u) p v = fwrite fs p (u @ v)"
  by (simp add: fwrite_def content_def)

lemma cli_loop_unfold:
  assumes "fst (cli_tick_body shw a t s) = None"
  shows "cli_loop shw a (t # rest) s =
     (if count a > 0 \<and> int (samples_written (snd (cli_tick_body shw a t s))) \<ge> count a
      then (Done, snd (cli_tick_body shw a t s))
      else cli_loop shw a rest (snd (cli_tick_body shw a t s)))"
  using assms by (cases "cli_tick_body shw a t s") simp

lemma cli_loop_reaches_count:
  assumes "list_all normal_tick pre" and "pre \<noteq> []"
    and "int (samples_written s + length pre) = count a"
  shows "fst (cli_loop shw a (pre @ rest) s) = Done
    \<and> samples_written (snd (cli_loop shw a (pre @ rest) s)) = samples_written s + length pre
    \<and> files (snd (cli_loop shw a (pre @ rest) s))
        = fwrite (files s) (out_path a) (rows_text shw (map tick_sample pre))
    \<and> ticks_in (trace (snd (cli_loop shw a (pre @ rest) s))) = ticks_in (trace s) + length pre
    \<and> printed_samples (trace (snd (cli_loop shw a (pre @ rest) s))) = printed_samples (trace s) + length pre"
  using assms
proof (induction pre arbitrary: s)
  case Nil
  then show ?case by simp
next
  case (Cons t pre)
  let ?s' = "snd (cli_tick_body shw a t s)"
  from Cons.prems(1) have nt: "normal_tick t" and np: "list_all normal_tick pre"
    by simp_all
  note b = cli_body_normal [OF nt, of shw a s]
  have unf: "cli_loop shw a ((t # pre) @ rest) s =
     (if count a > 0 \<and> int (samples_written ?s') \<ge> count a then (Done, ?s')
      else cli_loop shw a (pre @ rest) ?s')"
    using cli_loop_unfold [OF b(1)] by simp
  show ?case
  proof (cases "pre = []")
    case True
    with Cons.prems(3) have c: "count a > 0 \<and> int (samples_written ?s') \<ge> count a"
      by (simp add: b(2))
    have "cli_loop shw a ((t # pre) @ rest) s = (Done, ?s')"
      by (simp only: unf if_P [OF c])
    then show ?thesis
      using True by (simp add: b rows_text_def)
  next
    case False
    with Cons.prems(3) have nc: "\<not> (count a > 0 \<and> int (samples_written ?s') \<ge> count a)"
      by (cases pre) (simp_all add: b(2))
    have r: "cli_loop shw a ((t # pre) @ rest) s = cli_loop shw a (pre @ rest) ?s'"
      by (simp only: unf if_not_P [OF nc])
    have "int (samples_written ?s' + length pre) = count a"
      using Cons.prems(3) by (simp add: b(2))
    from Cons.IH [OF np False this] show ?thesis
      unfolding r by (simp add: b rows_text_def fwrite_twice)
  qed
qed


lemma cli_open_file_fields:
  "samples_written (cli_open_file a env dec s) = samples_written s"
  "files (cli_open_file a env dec s) = open_sink dec (files s) (out_path a)"
  "ticks_in (trace (cli_open_file a env dec s)) = ticks_in (trace s)"
  "printed_samples (trace (cli_open_file a env dec s)) = printed_samples (trace s)"
  "clock (cli_open_file a env dec s) = t0 env"
  "next_t (cli_open_file a env dec s) = t0 env"
  by (simp_all add: cli_open_file_def Let_def logev_def open_sink_def ticks_in_def printed_samples_def)

lemma cli_before_try_fields:
  "samples_written (cli_before_try a env) = 0"
  "files (cli_before_try a env) = files0 env"
  "ticks_in (trace (cli_before_try a env)) = 0"
  "printed_samples (trace (cli_before_try a env)) = 0"
  by (simp_all add: cli_before_try_def logev_def init_state_def ticks_in_def printed_samples_def)

lemma cli_main_run:
  assumes "interval a > 0" and "port_opens env" and "file_open_error env = None"
  shows "cli_main shw a env =
     cli_with_file shw a env (cli_open_decision (appendMode a) (path_exists (files0 env) (out_path a)))
       (cli_before_try a env)"
  using assms by (simp add: cli_main_def Let_def cli_before_try_def logev_def init_state_def)

lemma cli_teardown:
  "samples_written (cli_finally (logev [CloseFile] s)) = samples_written s"
  "files (cli_finally (logev [CloseFile] s)) = files s"
  "trace (cli_finally (logev [CloseFile] s)) = trace s @ [CloseFile, ClosePort, Stdout (InfoDone (samples_written s))]"
  "ticks_in (tr @ [CloseFile, ClosePort, Stdout m]) = ticks_in tr"
  "printed_samples (tr @ [CloseFile, ClosePort, Stdout (InfoDone k)]) = printed_samples tr"
  by (simp_all add: cli_finally_def logev_def ticks_in_def printed_samples_def)

lemma cli_main_reaches_limit:
  assumes "interval a > 0" and "port_opens env" and "file_open_error env = None"
    and "count a = int N" and "N > 0"
    and "ticks env = pre @ rest" and "length pre = N" and "list_all normal_tick pre"
  shows "fst (cli_main shw a env) = Return 0
    \<and> samples_written (snd (cli_main shw a env)) = N
    \<and> files (snd (cli_main shw a env))
        = fwrite (cli_open_sink (files0 env) (out_path a) (appendMode a)) (out_path a)
            (rows_text shw (map tick_sample pre))
    \<and> ticks_in (trace (snd (cli_main shw a env))) = N
    \<and> printed_samples (trace (snd (cli_main shw a env))) = N
    \<and> (\<exists>tr. trace (snd (cli_main shw a env)) = tr @ [CloseFile, ClosePort, Stdout (InfoDone N)])"
proof -
  let ?dec = "cli_open_decision (appendMode a) (path_exists (files0 env) (out_path a))"
  let ?s = "cli_open_file a env ?dec (cli_before_try a env)"
  let ?r = "cli_loop shw a (pre @ rest) ?s"
  have ne: "pre \<noteq> []"
    using assms(5,7) by auto
  have cnt: "int (samples_written ?s + length pre) = count a"
    using assms(4,7) by (simp add: cli_open_file_fields cli_before_try_fields)
  note l = cli_loop_reaches_count [OF assms(8) ne cnt, of shw rest]
  from l have d: "?r = (Done, snd ?r)"
    by (metis prod.collapse)
  have m: "cli_main shw a env = (Return 0, cli_finally (logev [CloseFile] (snd ?r)))"
    unfolding cli_main_run [OF assms(1-3)] cli_with_file_def assms(6)
    by (subst d) simp
  have sw: "samples_written (snd ?r) = N"
    using l assms(7) by (simp add: cli_open_file_fields cli_before_try_fields)
  have tk: "ticks_in (trace (snd ?r)) = N"
    using l assms(7) by (simp add: cli_open_file_fields cli_before_try_fields)
  have pr: "printed_samples (trace (snd ?r)) = N"
    using l assms(7) by (simp add: cli_open_file_fields cli_before_try_fields)
  have fl: "files (snd ?r) = fwrite (cli_open_sink (files0 env) (out_path a) (appendMode a)) (out_path a)
            (rows_text shw (map tick_sample pre))"
    using l by (simp add: cli_open_file_fields cli_before_try_fields cli_open_sink_def)
  show ?thesis
    unfolding m by (simp add: cli_teardown sw tk pr fl)
qed




subsection \<open>Append round trip\<close>

lemma rows_text_append: "rows_text shw (xs @ ys) = rows_text shw xs @ rows_text shw ys"
  by (simp add: rows_text_def)

lemma on_sample_csv:
  "csv_file (on_sample shw smp w) = csv_file w"
  "csv_file w = Some p \<Longrightarrow> wfiles (on_sample shw smp w) = fwrite (wfiles w) p (sample_line shw smp)"
  by (simp_all add: on_sample_def trim_buffers_def append_buffers_def write_csv_def Let_def
      split: option.splits)

lemma fold_on_sample_csv:
  assumes "csv_file w = Some p" and "wfiles w p = Some c"
  shows "csv_file (fold (on_sample shw) smps w) = Some p
    \<and> wfiles (fold (on_sample shw) smps w) = (wfiles w)(p \<mapsto> c @ rows_text shw smps)"
  using assms
proof (induction smps arbitrary: w c)
  case Nil
  then show ?case by (auto simp: rows_text_def)
next
  case (Cons smp smps)
  have c: "csv_file (on_sample shw smp w) = Some p"
    using Cons.prems by (simp add: on_sample_csv)
  have f: "wfiles (on_sample shw smp w) p = Some (c @ sample_line shw smp)"
    using Cons.prems by (simp add: on_sample_csv fwrite_def content_def)
  from Cons.IH [OF c f] show ?case
    using Cons.prems by (auto simp: on_sample_csv rows_text_def fwrite_def content_def)
qed

lemma handle_sample: "handle_signal shw (SigSample smp) = on_sample shw smp"
  by (rule ext) (simp add: handle_signal_def)

lemma deliver_session:
  "deliver shw (session_signals smps) w = on_finished (fold (on_sample shw) smps w)"
  by (simp add: deliver_def session_signals_def fold_map comp_def handle_sample)
     (simp add: handle_signal_def)

lemma gui_session_file:
  assumes "csv_file w = Some p" and "wfiles w p = Some c"
  shows "wfiles (deliver shw (session_signals smps) w) = (wfiles w)(p \<mapsto> c @ rows_text shw smps)"
  using fold_on_sample_csv [OF assms, of shw smps]
  by (simp add: deliver_session on_finished_def)

lemma window_start_csv:
  "csv_file (window_start p app w) = Some p"
  "wfiles (window_start p app w) = gui_open_csv (wfiles w) p app"
  by (simp_all add: window_start_def)

lemma open_fresh:
  assumes "fs p = None"
  shows "cli_open_sink fs p False = fs(p \<mapsto> header_line)" and "gui_open_csv fs p False = fs(p \<mapsto> header_line)"
  using assms
  by (simp_all add: cli_open_sink_def gui_open_csv_def open_sink_def cli_open_decision_def
      gui_open_decision_def path_exists_def py_open_def fwrite_def content_def)

lemma open_append_existing:
  assumes "fs p = Some c"
  shows "cli_open_sink fs p True = fs" and "gui_open_csv fs p True = fs"
  using assms
  by (auto simp: cli_open_sink_def gui_open_csv_def open_sink_def cli_open_decision_def
      gui_open_decision_def path_exists_def py_open_def fwrite_def content_def)

lemma worker_body_quiet:
  assumes "quiet_tick t"
  shows "fst (worker_tick_body iv t s) = None"
    and "stop_flag (snd (worker_tick_body iv t s)) = stop_flag s"
    and "signals (trace (snd (worker_tick_body iv t s))) = signals (trace s) @ [SigSample (tick_sample t)]"
  using assms
  by (auto simp: quiet_tick_def worker_tick_body_def Let_def arrive_def wait_deadline_def
      advance_deadline_def read_device_def logev_def signals_append tick_sample_def
      split: read_result.splits)

lemma worker_loop_session:
  assumes "list_all quiet_tick pre" and "stop_request t = Some AtBoundary" and "\<not> stop_flag s"
  shows "fst (worker_loop iv (pre @ t # rest) s) = Done
    \<and> signals (trace (snd (worker_loop iv (pre @ t # rest) s)))
        = signals (trace s) @ map SigSample (map tick_sample pre)"
  using assms
proof (induction pre arbitrary: s)
  case Nil
  then show ?case
    by (simp add: arrive_def request_stop_def logev_def signals_append)
next
  case (Cons u pre)
  from Cons.prems(1) have q: "quiet_tick u" and qs: "list_all quiet_tick pre"
    by simp_all
  let ?b = "worker_tick_body iv u s"
  note b = worker_body_quiet [OF q, of iv s]
  from q have nb: "stop_request u \<noteq> Some AtBoundary"
    by (simp add: quiet_tick_def)
  have f: "fst (worker_loop iv ((u # pre) @ t # rest) s) = fst (worker_loop iv (pre @ t # rest) (snd ?b))"
    using loop_fst_unfold [OF nb Cons.prems(3), of iv "pre @ t # rest"] b(1)
    by (simp del: worker_loop.simps)
  have g: "snd (worker_loop iv ((u # pre) @ t # rest) s) = snd (worker_loop iv (pre @ t # rest) (snd ?b))"
    using loop_unfold [OF nb Cons.prems(3), of iv "pre @ t # rest"] b(1)
    by (simp del: worker_loop.simps)
  have nf: "\<not> stop_flag (snd ?b)"
    using Cons.prems(3) by (simp add: b(2))
  from Cons.IH [OF qs Cons.prems(2) nf] show ?case
    unfolding f g by (simp add: b(3))
qed

lemma worker_session_signals:
  assumes "gport_opens env" and "gticks env = pre @ t # rest"
    and "list_all quiet_tick pre" and "stop_request t = Some AtBoundary"
  shows "signals (trace (snd (worker_run iv env))) = session_signals (map tick_sample pre)"
proof -
  let ?s2 = "(logev [Emit (SigStatus StatusRunning)] (logev [OpenPort] (init_state Map.empty)))
               \<lparr>clock := gt0 env, next_t := gt0 env\<rparr> :: 'a run_state"
  have s2: "\<not> stop_flag ?s2" "signals (trace ?s2) = [SigStatus StatusRunning]"
    by (simp_all add: logev_def init_state_def)
  note l = worker_loop_session [OF assms(3,4) s2(1), of iv rest]
  from l have d: "worker_loop iv (pre @ t # rest) ?s2 = (Done, snd (worker_loop iv (pre @ t # rest) ?s2))"
    by (metis prod.collapse)
  have "worker_run iv env = (Return 0, worker_finally (snd (worker_loop iv (pre @ t # rest) ?s2)))"
    using assms(1) unfolding worker_run_def Let_def assms(2)
    by (subst d) simp
  moreover have "signals (trace (snd (worker_loop iv (pre @ t # rest) ?s2)))
                   = [SigStatus StatusRunning] @ map SigSample (map tick_sample pre)"
    using l s2(2) by simp
  ultimately show ?thesis
    by (simp add: worker_finally_def logev_def signals_append session_signals_def)
qed


text \<open>
  C5. Let the target not exist. A first run with append off that writes \<open>M > 0\<close> samples,
  followed by a second run on the resulting file system with append on that writes \<open>M\<close> more,
  leaves a file that consists of the header row followed by the rows of the \<open>2M\<close> samples in
  the order of emission. This holds for the command-line front end (two calls of \<open>main\<close> with
  limit \<open>M\<close>) and for the graphical front end (two sessions; in each the window handles the
  signals of a worker run of \<open>M\<close> quiet ticks that is then stopped).
\<close>

theorem append_round_trip:
  assumes "0 < M" and "0 < iv" and "fs p = None" and "wfiles w p = None"
    and "length pre1 = M" and "list_all normal_tick pre1"
    and "length pre2 = M" and "list_all normal_tick pre2"
    and "gport_opens g1" and "gticks g1 = q1 @ st1 # r1" and "length q1 = M"
    and "list_all quiet_tick q1" and "stop_request st1 = Some AtBoundary"
    and "gport_opens g2" and "gticks g2 = q2 @ st2 # r2" and "length q2 = M"
    and "list_all quiet_tick q2" and "stop_request st2 = Some AtBoundary"
  shows
    "(let run1 = cli_main shw \<lparr>interval = iv, count = int M, out_path = p, appendMode = False\<rparr>
                   \<lparr>files0 = fs, port_opens = True, file_open_error = None, t0 = tA, ticks = pre1 @ rest1\<rparr>;
          run2 = cli_main shw \<lparr>interval = iv, count = int M, out_path = p, appendMode = True\<rparr>
                   \<lparr>files0 = files (snd run1), port_opens = True, file_open_error = None, t0 = tB,
                    ticks = pre2 @ rest2\<rparr>
      in fst run1 = Return 0 \<and> fst run2 = Return 0
         \<and> files (snd run2) p = Some (header_line @ rows_text shw (map tick_sample (pre1 @ pre2)))
         \<and> length (map tick_sample (pre1 @ pre2)) = 2 * M)
     \<and> (let w1 = deliver shw (signals (trace (snd (worker_run iv g1)))) (window_start p False w);
             w2 = deliver shw (signals (trace (snd (worker_run iv g2)))) (window_start p True w1)
         in wfiles w2 p = Some (header_line @ rows_text shw (map tick_sample (q1 @ q2)))
            \<and> length (map tick_sample (q1 @ q2)) = 2 * M)"
proof -
  let ?a1 = "\<lparr>interval = iv, count = int M, out_path = p, appendMode = False\<rparr>"
  let ?a2 = "\<lparr>interval = iv, count = int M, out_path = p, appendMode = True\<rparr>"
  let ?e1 = "\<lparr>files0 = fs, port_opens = True, file_open_error = None, t0 = tA, ticks = pre1 @ rest1\<rparr>"
  let ?run1 = "cli_main shw ?a1 ?e1"
  let ?e2 = "\<lparr>files0 = files (snd ?run1), port_opens = True, file_open_error = None, t0 = tB,
               ticks = pre2 @ rest2\<rparr>"
  let ?run2 = "cli_main shw ?a2 ?e2"
  have r1: "fst ?run1 = Return 0"
    and f1: "files (snd ?run1) = fwrite (cli_open_sink fs p False) p (rows_text shw (map tick_sample pre1))"
    using cli_main_reaches_limit [of ?a1 ?e1 M pre1 rest1 shw] assms by simp_all
  have f1': "files (snd ?run1) = fs(p \<mapsto> header_line @ rows_text shw (map tick_sample pre1))"
    unfolding f1 using assms(3) by (simp add: open_fresh fwrite_def content_def)
  have r2: "fst ?run2 = Return 0"
    and f2: "files (snd ?run2) = fwrite (cli_open_sink (files (snd ?run1)) p True) p (rows_text shw (map tick_sample pre2))"
    using cli_main_reaches_limit [of ?a2 ?e2 M pre2 rest2 shw] assms by simp_all
  have ex: "files (snd ?run1) p = Some (header_line @ rows_text shw (map tick_sample pre1))"
    by (simp add: f1')
  have f2': "files (snd ?run2) p = Some (header_line @ rows_text shw (map tick_sample (pre1 @ pre2)))"
    unfolding f2 using ex
    by (simp add: open_append_existing fwrite_def content_def rows_text_def)
  let ?smps1 = "map tick_sample q1" and ?smps2 = "map tick_sample q2"
  have sg1: "signals (trace (snd (worker_run iv g1))) = session_signals ?smps1"
    by (rule worker_session_signals [OF assms(9,10,12,13)])
  have sg2: "signals (trace (snd (worker_run iv g2))) = session_signals ?smps2"
    by (rule worker_session_signals [OF assms(14,15,17,18)])
  let ?w1 = "deliver shw (session_signals ?smps1) (window_start p False w)"
  let ?w2 = "deliver shw (session_signals ?smps2) (window_start p True ?w1)"
  have h1: "wfiles (window_start p False w) p = Some header_line"
    using assms(4) by (simp add: window_start_csv open_fresh)
  have g1: "wfiles ?w1 p = Some (header_line @ rows_text shw ?smps1)"
    using gui_session_file [OF _ h1, of shw ?smps1] by (simp add: window_start_csv)
  have h2: "wfiles (window_start p True ?w1) p = Some (header_line @ rows_text shw ?smps1)"
    using g1 by (simp add: window_start_csv open_append_existing)
  have g2: "wfiles ?w2 p = Some (header_line @ rows_text shw (map tick_sample (q1 @ q2)))"
    using gui_session_file [OF _ h2, of shw ?smps2] by (simp add: window_start_csv rows_text_append)
  show ?thesis
    unfolding sg1 sg2 using r1 r2 f2' g2 assms(5,7,11,16) by (simp add: Let_def)
qed

theorem append_round_trip_witness:
  "files (snd (cli_main (\<lambda>v::pyfloat. ''7'')
       \<lparr>interval = 1, count = int 1, out_path = ''log.csv'', appendMode = True\<rparr>
       \<lparr>files0 = files (snd (cli_main (\<lambda>v::pyfloat. ''7'')
            \<lparr>interval = 1, count = int 1, out_path = ''log.csv'', appendMode = False\<rparr>
            \<lparr>files0 = Map.empty, port_opens = True, file_open_error = None, t0 = 0,
              ticks = [\<lparr>oversleep = 0, reading = Temps None, latency = 0,
                         stamp = ''2024-05-01 12:00:00'', sleep_interrupted = False\<rparr>] @ []\<rparr>)),
          port_opens = True, file_open_error = None, t0 = 5,
          ticks = [\<lparr>oversleep = 0, reading = Temps None, latency = 0,
                     stamp = ''2024-05-01 12:00:05'', sleep_interrupted = False\<rparr>] @ []\<rparr>)) ''log.csv''
     = Some (header_line @ ''2024-05-01 12:00:00,,,,'' @ crlf @ ''2024-05-01 12:00:05,,,,'' @ crlf)"
proof -
  let ?t1 = "\<lparr>oversleep = 0, reading = Temps (None :: pyfloat option list option), latency = 0,
               stamp = ''2024-05-01 12:00:00'', sleep_interrupted = False\<rparr>"
  let ?t2 = "\<lparr>oversleep = 0, reading = Temps (None :: pyfloat option list option), latency = 0,
               stamp = ''2024-05-01 12:00:05'', sleep_interrupted = False\<rparr>"
  let ?q = "\<lparr>oversleep = 0, reading = Temps (None :: pyfloat option list option), latency = 0,
              stamp = ''2024-05-01 12:00:00'', stop_request = None\<rparr>"
  let ?st = "\<lparr>oversleep = 0, reading = Temps (None :: pyfloat option list option), latency = 0,
               stamp = ''2024-05-01 12:00:01'', stop_request = Some AtBoundary\<rparr>"
  let ?g = "\<lparr>gport_opens = True, gt0 = 0, gticks = [?q, ?st]\<rparr>"
  have q: "csv_quote ''2024-05-01 12:00:00'' = ''2024-05-01 12:00:00''"
    "csv_quote ''2024-05-01 12:00:05'' = ''2024-05-01 12:00:05''"
    by (simp_all add: csv_quote_def needs_quote_def dquote_def crlf_def)
  have r: "rows_text (\<lambda>v. ''7'') (map tick_sample ([?t1] @ [?t2]))
             = ''2024-05-01 12:00:00,,,,'' @ crlf @ ''2024-05-01 12:00:05,,,,'' @ crlf"
    by (simp add: rows_text_def tick_sample_def process_def unknown_line q)
  have h: "0 < (1::nat)" "0 < (1::real)" "(Map.empty :: fs) ''log.csv'' = None"
    "wfiles (init_window NaN Map.empty) ''log.csv'' = None"
    "length [?t1] = 1" "list_all normal_tick [?t1]" "length [?t2] = 1" "list_all normal_tick [?t2]"
    "gport_opens ?g" "gticks ?g = [?q] @ ?st # []" "length [?q] = 1" "list_all quiet_tick [?q]"
    "stop_request ?st = Some AtBoundary"
    "gport_opens ?g" "gticks ?g = [?q] @ ?st # []" "length [?q] = 1" "list_all quiet_tick [?q]"
    "stop_request ?st = Some AtBoundary"
    by (simp_all add: normal_tick_def quiet_tick_def init_window_def)
  show ?thesis
    using append_round_trip [OF h, of "\<lambda>v. ''7''" 0 "[]" 5 "[]"]
    unfolding Let_def r by blast
qed

subsection \<open>Release on every exit path\<close>







text \<open>
  Ctrl+C between the opening of the port and the \<^verbatim>\<open>try\<close> statement: the port has been opened
  and is not closed.
\<close>

lemma interrupt_before_try_skips_release:
  assumes "interval a > 0" and "port_opens env"
  shows "fst (cli_main_startup (Some BeforeTry) shw a env) = Propagate KeyboardInterrupt
    \<and> trace (snd (cli_main_startup (Some BeforeTry) shw a env)) = [EnsureParentDir (out_path a), OpenPort]"
  using assms by (simp add: cli_main_startup_def logev_def init_state_def)





subsection \<open>Drift-compensated schedule\<close>

lemma sched_events_append: "sched_events (xs @ ys) = sched_events xs @ sched_events ys"
  by (simp add: sched_events_def)

lemma waits_append: "waits (xs @ ys) = waits xs @ waits ys"
  by (induction xs rule: waits.induct) simp_all

lemma waits_sched: "waits (sched_events tr) = waits tr"
  by (induction tr rule: waits.induct) (simp_all add: sched_events_def)

lemma schedule_deadlines:
  "follows_schedule iv d es \<Longrightarrow>
     map fst (waits es) = map (\<lambda>i. d + real i * iv) [0..<length (waits es)]"
proof (induction iv d es rule: follows_schedule.induct)
  case (3 iv d d' n z d'' es)
  then have "map fst (waits es) = map (\<lambda>i. d + iv + real i * iv) [0..<length (waits es)]"
    by simp
  also have "\<dots> = map (\<lambda>i. d + real (Suc i) * iv) [0..<length (waits es)]"
    by (simp add: algebra_simps)
  finally show ?case
    using 3 by (simp add: upt_conv_Cons map_Suc_upt [symmetric] del: upt_Suc)
qed simp_all


lemma cli_body_aborted:
  assumes "next_t s - clock s > 0 \<and> sleep_interrupted t"
  shows "fst (cli_tick_body shw a t s) \<noteq> None"
    and "\<exists>new. trace (snd (cli_tick_body shw a t s)) = trace s @ new
           \<and> sched_events new = [Wait (next_t s) (clock s) (max 0 (next_t s - clock s))]"
  using assms
  by (simp_all add: cli_tick_body_def Let_def wait_deadline_def logev_def sched_events_def)

lemma cli_body_sched:
  assumes "\<not> (next_t s - clock s > 0 \<and> sleep_interrupted t)"
  shows "\<exists>new. trace (snd (cli_tick_body shw a t s)) = trace s @ new
           \<and> sched_events new = [Wait (next_t s) (clock s) (max 0 (next_t s - clock s)),
                                  Advance (next_t s + interval a), ReadDevice]"
    and "next_t (snd (cli_tick_body shw a t s)) = next_t s + interval a"
  using assms
  by (auto simp: cli_tick_body_def Let_def wait_deadline_def advance_deadline_def read_device_def
      logev_def sched_events_def split: read_result.splits)

lemma cli_loop_snd:
  "snd (cli_loop shw a (t # rest) s) = snd (cli_tick_body shw a t s)
   \<or> (fst (cli_tick_body shw a t s) = None
       \<and> snd (cli_loop shw a (t # rest) s) = snd (cli_loop shw a rest (snd (cli_tick_body shw a t s))))"
  by (cases "cli_tick_body shw a t s") (auto split: option.splits)

lemma cli_loop_schedule:
  "\<exists>new. trace (snd (cli_loop shw a tks s)) = trace s @ new
        \<and> follows_schedule (interval a) (next_t s) (sched_events new)"
proof (induction tks arbitrary: s)
  case Nil
  show ?case by (simp add: sched_events_def)
next
  case (Cons t rest)
  let ?b = "cli_tick_body shw a t s"
  show ?case
  proof (cases "next_t s - clock s > 0 \<and> sleep_interrupted t")
    case True
    from cli_body_aborted [OF True, of shw a] cli_loop_snd [of shw a t rest s]
    have "snd (cli_loop shw a (t # rest) s) = snd ?b"
      by auto
    with cli_body_aborted(2) [OF True, of shw a] show ?thesis
      by (auto simp del: cli_loop.simps)
  next
    case False
    from cli_body_sched [OF False, of shw a] obtain nb where
      nb: "trace (snd ?b) = trace s @ nb"
          "sched_events nb = [Wait (next_t s) (clock s) (max 0 (next_t s - clock s)),
                              Advance (next_t s + interval a), ReadDevice]"
      and nx: "next_t (snd ?b) = next_t s + interval a"
      by blast
    from cli_loop_snd [of shw a t rest s] show ?thesis
    proof
      assume "snd (cli_loop shw a (t # rest) s) = snd ?b"
      with nb show ?thesis
        by (auto simp del: cli_loop.simps)
    next
      assume r: "fst ?b = None \<and> snd (cli_loop shw a (t # rest) s) = snd (cli_loop shw a rest (snd ?b))"
      from Cons.IH [of "snd ?b"] obtain nr where
        nr: "trace (snd (cli_loop shw a rest (snd ?b))) = trace (snd ?b) @ nr"
            "follows_schedule (interval a) (next_t (snd ?b)) (sched_events nr)"
        by blast
      have "trace (snd (cli_loop shw a (t # rest) s)) = trace s @ (nb @ nr)"
        using r nr(1) nb(1) by (simp del: cli_loop.simps)
      moreover have "follows_schedule (interval a) (next_t s) (sched_events (nb @ nr))"
        using nr(2) nb(2) nx by (simp add: sched_events_append)
      ultimately show ?thesis
        by blast
    qed
  qed
qed

lemma arrive_fields:
  "next_t (arrive p t s) = next_t s" "clock (arrive p t s) = clock s"
  "\<exists>new. trace (arrive p t s) = trace s @ new \<and> sched_events new = []"
  by (simp_all add: arrive_def request_stop_def logev_def sched_events_def)

lemma worker_body_sched:
  "\<exists>new. trace (snd (worker_tick_body iv t s)) = trace s @ new
           \<and> sched_events new = [Wait (next_t s) (clock s) (max 0 (next_t s - clock s)),
                                  Advance (next_t s + iv), ReadDevice]"
  "next_t (snd (worker_tick_body iv t s)) = next_t s + iv"
  by (auto simp: worker_tick_body_def Let_def wait_deadline_def advance_deadline_def read_device_def
      arrive_def request_stop_def logev_def sched_events_def split: read_result.splits)

lemma worker_loop_snd:
  "snd (worker_loop iv (t # rest) s) = arrive AtBoundary t s
   \<or> snd (worker_loop iv (t # rest) s) = snd (worker_tick_body iv t (arrive AtBoundary t s))
   \<or> snd (worker_loop iv (t # rest) s)
        = snd (worker_loop iv rest (snd (worker_tick_body iv t (arrive AtBoundary t s))))"
  by (cases "worker_tick_body iv t (arrive AtBoundary t s)") (auto simp: Let_def split: option.splits)

lemma worker_loop_schedule:
  "\<exists>new. trace (snd (worker_loop iv tks s)) = trace s @ new
        \<and> follows_schedule iv (next_t s) (sched_events new)"
proof (induction tks arbitrary: s)
  case Nil
  show ?case by (simp add: sched_events_def)
next
  case (Cons t rest)
  let ?s0 = "arrive AtBoundary t s"
  let ?b = "worker_tick_body iv t ?s0"
  from arrive_fields(3) [of AtBoundary t s] obtain n0 where
    n0: "trace ?s0 = trace s @ n0" "sched_events n0 = []"
    by blast
  from worker_body_sched [of iv t ?s0] obtain nb where
    nb: "trace (snd ?b) = trace ?s0 @ nb"
        "sched_events nb = [Wait (next_t s) (clock s) (max 0 (next_t s - clock s)),
                            Advance (next_t s + iv), ReadDevice]"
    and nx: "next_t (snd ?b) = next_t s + iv"
    by (auto simp: arrive_fields)
  from Cons.IH [of "snd ?b"] obtain nr where
    nr: "trace (snd (worker_loop iv rest (snd ?b))) = trace (snd ?b) @ nr"
        "follows_schedule iv (next_t (snd ?b)) (sched_events nr)"
    by blast
  from worker_loop_snd [of iv t rest s] show ?case
  proof (elim disjE)
    assume "snd (worker_loop iv (t # rest) s) = ?s0"
    with n0 show ?thesis
      by (auto simp del: worker_loop.simps)
  next
    assume "snd (worker_loop iv (t # rest) s) = snd ?b"
    then have "trace (snd (worker_loop iv (t # rest) s)) = trace s @ (n0 @ nb)"
      using n0 nb by (simp del: worker_loop.simps)
    moreover have "follows_schedule iv (next_t s) (sched_events (n0 @ nb))"
      using n0 nb by (simp add: sched_events_append)
    ultimately show ?thesis
      by blast
  next
    assume "snd (worker_loop iv (t # rest) s) = snd (worker_loop iv rest (snd ?b))"
    then have "trace (snd (worker_loop iv (t # rest) s)) = trace s @ (n0 @ nb @ nr)"
      using n0 nb nr by (simp del: worker_loop.simps)
    moreover have "follows_schedule iv (next_t s) (sched_events (n0 @ nb @ nr))"
      using n0 nb nr nx by (simp add: sched_events_append)
    ultimately show ?thesis
      by blast
  qed
qed


lemma with_file_schedule:
  assumes "sched_events (trace s) = []"
  shows "follows_schedule (interval a) (t0 env) (sched_events (trace (snd (cli_with_file shw a env dec s))))"
proof -
  let ?s3 = "cli_open_file a env dec s"
  have s3: "sched_events (trace ?s3) = []" "next_t ?s3 = t0 env"
    using assms by (simp_all add: cli_open_file_def Let_def logev_def sched_events_def)
  from cli_loop_schedule [of shw a "ticks env" ?s3] obtain new where
    new: "trace (snd (cli_loop shw a (ticks env) ?s3)) = trace ?s3 @ new"
         "follows_schedule (interval a) (t0 env) (sched_events new)"
    by (auto simp: s3)
  have "sched_events (trace (snd (cli_with_file shw a env dec s)))
          = sched_events (trace (snd (cli_loop shw a (ticks env) ?s3)))"
    by (cases "cli_loop shw a (ticks env) ?s3"; rename_tac ex s'; case_tac ex)
       (auto simp: cli_with_file_def cli_finally_def logev_def sched_events_def split: exn.splits)
  with new s3 show ?thesis
    by (simp add: sched_events_append)
qed

lemma cli_main_schedule:
  "follows_schedule (interval a) (t0 env) (sched_events (trace (snd (cli_main shw a env))))"
proof (cases "interval a > 0 \<and> port_opens env \<and> file_open_error env = None")
  case True
  have "sched_events (trace (cli_before_try a env)) = []"
    by (simp add: cli_before_try_def logev_def init_state_def sched_events_def)
  then show ?thesis
    using True by (simp add: cli_main_run with_file_schedule)
next
  case False
  then have "sched_events (trace (snd (cli_main shw a env))) = []"
    by (auto simp: cli_main_def Let_def cli_finally_def logev_def init_state_def sched_events_def
        split: option.splits)
  then show ?thesis
    by simp
qed

lemma worker_run_schedule:
  "follows_schedule iv (gt0 env) (sched_events (trace (snd (worker_run iv env))))"
proof (cases "gport_opens env")
  case True
  let ?s2 = "(logev [Emit (SigStatus StatusRunning)] (logev [OpenPort] (init_state Map.empty)))
               \<lparr>clock := gt0 env, next_t := gt0 env\<rparr> :: 'a run_state"
  have s2: "sched_events (trace ?s2) = []" "next_t ?s2 = gt0 env"
    by (simp_all add: logev_def init_state_def sched_events_def)
  from worker_loop_schedule [of iv "gticks env" ?s2] obtain new where
    new: "trace (snd (worker_loop iv (gticks env) ?s2)) = trace ?s2 @ new"
         "follows_schedule iv (gt0 env) (sched_events new)"
    by (auto simp: s2)
  have "sched_events (trace (snd (worker_run iv env)))
          = sched_events (trace (snd (worker_loop iv (gticks env) ?s2)))"
    using True
    by (cases "worker_loop iv (gticks env) ?s2"; rename_tac ex s'; case_tac ex)
       (auto simp: worker_run_def Let_def worker_finally_def logev_def sched_events_def split: exn.splits)
  with new s2 show ?thesis
    by (simp add: sched_events_append)
next
  case False
  then show ?thesis
    by (simp add: worker_run_def Let_def worker_finally_def logev_def init_state_def sched_events_def)
qed

text \<open>
  C1, as amended. In every run of either front end, whatever the sleep overshoots and read
  latencies, the ticks follow the schedule that starts with the clock reading \<open>t0\<close> taken
  before the loop: tick \<open>i\<close> has the deadline \<open>t0 + i * interval\<close>, sleeps only if the clock is
  behind that deadline (for the remaining time) and otherwise goes on at once, and advances the
  deadline by \<open>interval\<close> before the device is read. Times are real numbers. (A tick whose
  deadline has passed does not sleep, so after a long read the following ticks run back to
  back.)
\<close>

theorem ticks_follow_schedule:
  "follows_schedule (interval a) (t0 env) (sched_events (trace (snd (cli_main shw a env))))
   \<and> map fst (waits (trace (snd (cli_main shw a env))))
       = map (\<lambda>i. t0 env + real i * interval a) [0..<length (waits (trace (snd (cli_main shw a env))))]
   \<and> follows_schedule iv (gt0 genv) (sched_events (trace (snd (worker_run iv genv))))
   \<and> map fst (waits (trace (snd (worker_run iv genv))))
       = map (\<lambda>i. gt0 genv + real i * iv) [0..<length (waits (trace (snd (worker_run iv genv))))]"
  using cli_main_schedule [of a env shw] worker_run_schedule [of iv genv]
    schedule_deadlines [of "interval a" "t0 env" "sched_events (trace (snd (cli_main shw a env)))"]
    schedule_deadlines [of iv "gt0 genv" "sched_events (trace (snd (worker_run iv genv)))"]
  by (simp add: waits_sched)

theorem ticks_follow_schedule_witness:
  "map fst (waits (trace (snd (cli_main (\<lambda>v. ''7'') slow_read_args slow_read_env))))
     = map (\<lambda>i. t0 slow_read_env + real i * interval slow_read_args)
         [0..<length (waits (trace (snd (cli_main (\<lambda>v. ''7'') slow_read_args slow_read_env))))]"
  using ticks_follow_schedule [of slow_read_args slow_read_env "\<lambda>v. ''7''"]
  by blast

text \<open>
  C1 as stated, with no catch-up burst, fails: with interval 1 and a first read that takes
  3.5, the ticks with deadlines 1, 2 and 3 all begin at clock reading 3.5 without sleeping.
\<close>

theorem catch_up_burst_counterexample:
  "waits (trace (snd (cli_main (\<lambda>v. ''7'') slow_read_args slow_read_env)))
     = [(0, 0, 0), (1, 7 / 2, 0), (2, 7 / 2, 0), (3, 7 / 2, 0)]
   \<and> catch_up_burst 1 (waits (trace (snd (cli_main (\<lambda>v. ''7'') slow_read_args slow_read_env))))"
proof -
  have "waits (trace (snd (cli_main (\<lambda>v. ''7'') slow_read_args slow_read_env)))
     = [(0, 0, 0), (1, 7 / 2, 0), (2, 7 / 2, 0), (3, 7 / 2, 0)]"
    by (simp add: cli_main_def cli_with_file_def cli_open_file_def slow_read_args_def slow_read_env_def
        Let_def cli_tick_body_def wait_deadline_def advance_deadline_def read_device_def logev_def
        init_state_def cli_finally_def cli_open_decision_def path_exists_def)
  then show ?thesis
    by simp
qed

end
